theory Spec2Isabelle
  imports Complex_Main
begin

section \<open>Single-precision arithmetic\<close>

text \<open>
  The C++ source computes in \<^verbatim>\<open>float\<close>. The embedding represents a binary32 value other
  than the negative zero by the rational number it denotes (\<open>Fin q\<close>; \<open>Fin 0\<close> is \<open>+0.0\<close>),
  the negative zero by \<open>NegZero\<close>, and a non-finite value (an infinity or a NaN) by
  \<open>NonFinite\<close>. Two values of the embedding are equal exactly when the two binary32 values
  have the same bits (NaN payloads aside). An arithmetic operation on non-zero operands is
  the exact rational operation followed by \<open>fl\<close>, rounding to nearest with ties to even at
  24 significant bits, gradual underflow below \<open>2^-126\<close> (a negative result that rounds to
  zero is the negative zero) and overflow to a non-finite value at \<open>2^128\<close>. The sign of an
  exact zero result follows IEEE 754 in the default rounding mode: a sum or difference that
  is exactly zero is \<open>+0.0\<close> unless both terms are zeros of negative sign (\<open>x + 0.0\<close> turns
  \<open>-0.0\<close> into \<open>+0.0\<close>), a product or quotient that is exactly zero has the sign of its
  operands' signs multiplied. In this program a non-finite operand always gives a non-finite
  result (the only multiplications are by the kernel weights and the only division is by
  256), so \<open>NonFinite\<close> is propagated.
\<close>

datatype f32 = Fin rat | NegZero | NonFinite

function ilog2n :: "int \<Rightarrow> int" where
  "ilog2n n = (if n < 2 then 0 else 1 + ilog2n (n div 2))"
  by pat_completeness auto
termination
  by (relation "measure nat") auto

declare ilog2n.simps [simp del]

definition pow2 :: "int \<Rightarrow> rat" where
  "pow2 e = (if 0 \<le> e then 2 ^ nat e else 1 / 2 ^ nat (- e))"

definition ilog2 :: "rat \<Rightarrow> int" where
  \<comment> \<open>the binary exponent of a non-zero rational: \<open>pow2 (ilog2 q) \<le> \<bar>q\<bar> < pow2 (ilog2 q + 1)\<close>\<close>
  "ilog2 q = (if 1 \<le> \<bar>q\<bar> then ilog2n \<lfloor>\<bar>q\<bar>\<rfloor>
              else - (1 + ilog2n (\<lceil>1 / \<bar>q\<bar>\<rceil> - 1)))"

definition round_even :: "rat \<Rightarrow> int" where
  "round_even q = (let f = \<lfloor>q\<rfloor>; r = q - of_int f in
     if r < 1 / 2 then f else if 1 / 2 < r then f + 1 else if even f then f else f + 1)"

definition fl :: "rat \<Rightarrow> f32" where
  "fl q = (if q = 0 then Fin 0 else
     let e = max (ilog2 q - 23) (- 149);
         r = of_int (round_even (q / pow2 e)) * pow2 e
     in if \<bar>r\<bar> < 2 ^ 128 then (if r = 0 \<and> q < 0 then NegZero else Fin r) else NonFinite)"

definition fadd :: "f32 \<Rightarrow> f32 \<Rightarrow> f32" where
  "fadd a b = (case (a, b) of
       (Fin x, Fin y) \<Rightarrow> fl (x + y)
     | (Fin x, NegZero) \<Rightarrow> fl x
     | (NegZero, Fin y) \<Rightarrow> fl y
     | (NegZero, NegZero) \<Rightarrow> NegZero
     | _ \<Rightarrow> NonFinite)"

definition fsub :: "f32 \<Rightarrow> f32 \<Rightarrow> f32" where
  "fsub a b = (case (a, b) of
       (Fin x, Fin y) \<Rightarrow> fl (x - y)
     | (Fin x, NegZero) \<Rightarrow> fl x
     | (NegZero, Fin y) \<Rightarrow> (if y = 0 then NegZero else fl (- y))
     | (NegZero, NegZero) \<Rightarrow> Fin 0
     | _ \<Rightarrow> NonFinite)"

definition fmul :: "f32 \<Rightarrow> f32 \<Rightarrow> f32" where
  "fmul a b = (case (a, b) of
       (Fin x, Fin y) \<Rightarrow> (if x * y = 0 \<and> (x < 0 \<or> y < 0) then NegZero else fl (x * y))
     | (Fin x, NegZero) \<Rightarrow> (if x < 0 then Fin 0 else NegZero)
     | (NegZero, Fin y) \<Rightarrow> (if y < 0 then Fin 0 else NegZero)
     | (NegZero, NegZero) \<Rightarrow> Fin 0
     | _ \<Rightarrow> NonFinite)"

definition fdiv :: "f32 \<Rightarrow> f32 \<Rightarrow> f32" where
  "fdiv a b = (case (a, b) of
       (Fin x, Fin y) \<Rightarrow> (if y = 0 then NonFinite
                           else if x = 0 \<and> y < 0 then NegZero else fl (x / y))
     | (NegZero, Fin y) \<Rightarrow> (if y = 0 then NonFinite else if y < 0 then Fin 0 else NegZero)
     | _ \<Rightarrow> NonFinite)"

definition float_of_int :: "int \<Rightarrow> f32" where
  \<comment> \<open>\<^verbatim>\<open>static_cast<float>\<close> of an integer, and the implicit conversion of an \<^verbatim>\<open>int\<close> operand\<close>
  "float_of_int i = fl (of_int i)"

text \<open>\<^verbatim>\<open>std::round\<close>: to the nearest integer, halfway cases away from zero. The result of
  rounding a binary32 value to an integer is itself a binary32 value, so no \<open>fl\<close> follows.
  \<open>fround\<close>, \<open>clamp\<close> and \<open>trunc\<close> work on the value: they are only applied on the way to a
  sample of an integer type, and the conversion to an integer type does not depend on the
  sign of a zero.\<close>

definition round_half_away :: "rat \<Rightarrow> int" where
  "round_half_away q = (if 0 \<le> q then \<lfloor>q + 1 / 2\<rfloor> else - \<lfloor>- q + 1 / 2\<rfloor>)"

definition fround :: "rat \<Rightarrow> rat" where
  "fround q = of_int (round_half_away q)"

text \<open>\<^verbatim>\<open>std::clamp(v, lo, hi)\<close> is \<^verbatim>\<open>(v < lo) ? lo : (hi < v) ? hi : v\<close>.\<close>

definition clamp :: "rat \<Rightarrow> rat \<Rightarrow> rat \<Rightarrow> rat" where
  "clamp v lo hi = (if v < lo then lo else if hi < v then hi else v)"

definition trunc :: "rat \<Rightarrow> int" where
  \<comment> \<open>conversion of a floating value to an integer type discards the fractional part\<close>
  "trunc q = (if 0 \<le> q then \<lfloor>q\<rfloor> else \<lceil>q\<rceil>)"

section \<open>Errors and loops\<close>

text \<open>
  What is undefined behaviour or an exception in the C++ source is an error value of the
  embedding. An index handed to a row pointer must address a sample of that row: an index
  outside \<open>[0, width)\<close> would read padding, a neighbouring row or memory outside the
  buffer, and all of these are \<open>OutOfRange\<close>. The type \<^verbatim>\<open>int\<close> has 32 bits: an
  arithmetic operation of that type whose mathematical result lies outside
  \<open>[-2^31, 2^31 - 1]\<close> is undefined behaviour, the error \<open>SignedOverflow\<close>; \<open>checked_int\<close>
  is applied to the result of every addition, subtraction, negation and multiplication the
  source performs in \<^verbatim>\<open>int\<close> on a coordinate or an index. (The loop counters stay below
  their bounds, and \<open>k + 2\<close> lies in \<open>[0, 4]\<close>.) A product with a stride is formed in
  \<^verbatim>\<open>ptrdiff_t\<close>, whose 64 bits hold every offset into a buffer.
\<close>

datatype error =
    OutOfRange
  | UndefinedShift
  | SignedOverflow
  | KernelOutOfRange
  | CastOutOfRange
  | NotFinite

fun for_loop :: "'i list \<Rightarrow> ('i \<Rightarrow> 's \<Rightarrow> error + 's) \<Rightarrow> 's \<Rightarrow> error + 's" where
  "for_loop [] body s = Inr s"
| "for_loop (i # is) body s =
     (case body i s of Inl e \<Rightarrow> Inl e | Inr s' \<Rightarrow> for_loop is body s')"

definition counting :: "int \<Rightarrow> int list" where
  \<comment> \<open>the values taken by \<^verbatim>\<open>i\<close> in \<^verbatim>\<open>for (int i = 0; i < n; ++i)\<close>\<close>
  "counting n = map int [0..<nat n]"

definition read_at :: "'a list \<Rightarrow> int \<Rightarrow> error + 'a" where
  "read_at buf i = (if 0 \<le> i \<and> i < int (length buf) then Inr (buf ! nat i) else Inl OutOfRange)"

definition read_row :: "'a list \<Rightarrow> int \<Rightarrow> int \<Rightarrow> int \<Rightarrow> error + 'a" where
  \<comment> \<open>\<^verbatim>\<open>row[i]\<close> for the row pointer \<^verbatim>\<open>row = buf + row_start\<close> of a row of \<open>row_len\<close> samples\<close>
  "read_row buf row_start row_len i =
     (if 0 \<le> i \<and> i < row_len then read_at buf (row_start + i) else Inl OutOfRange)"

definition write_at :: "'a list \<Rightarrow> int \<Rightarrow> 'a \<Rightarrow> error + 'a list" where
  "write_at buf i v =
     (if 0 \<le> i \<and> i < int (length buf) then Inr (buf[nat i := v]) else Inl OutOfRange)"

definition checked_int :: "int \<Rightarrow> error + int" where
  "checked_int v = (if - 2147483648 \<le> v \<and> v \<le> 2147483647 then Inr v else Inl SignedOverflow)"

definition shl1 :: "nat \<Rightarrow> int \<Rightarrow> error + int" where
  \<comment> \<open>\<^verbatim>\<open>1 << n\<close> in a signed type of \<open>w\<close> bits (C++20: the sign bit may be reached)\<close>
  "shl1 w n = (if n < 0 \<or> int w \<le> n then Inl UndefinedShift
               else if n = int w - 1 then Inr (- (2 ^ (w - 1)))
               else Inr (2 ^ nat n))"

section \<open>Formats and pixel types\<close>

text \<open>
  \<^verbatim>\<open>VSVideoFormat\<close> and \<^verbatim>\<open>VSVideoInfo\<close> are structs of the host (VapourSynth4.h); the
  records carry their fields (\<open>vi_width\<close> and \<open>vi_height\<close> are the fields \<^verbatim>\<open>width\<close> and
  \<^verbatim>\<open>height\<close> of \<^verbatim>\<open>VSVideoInfo\<close>). One plane of a \<^verbatim>\<open>VSFrame\<close> is a record of what the
  accessors \<^verbatim>\<open>getFrameWidth\<close>, \<^verbatim>\<open>getFrameHeight\<close>, \<^verbatim>\<open>getStride\<close> (in bytes) and
  \<^verbatim>\<open>getReadPtr\<close>/\<^verbatim>\<open>getWritePtr\<close> (the memory, as samples) return for it.
\<close>

datatype VSSampleType = stInteger | stFloat

datatype VSColorFamily = cfUndefined | cfGray | cfRGB | cfYUV

record VSVideoFormat =
  colorFamily :: VSColorFamily
  sampleType :: VSSampleType
  bitsPerSample :: int
  bytesPerSample :: int
  subSamplingW :: int
  subSamplingH :: int
  numPlanes :: int

record VSVideoInfo =
  format :: VSVideoFormat
  fpsNum :: int
  fpsDen :: int
  vi_width :: int
  vi_height :: int
  numFrames :: int

record 't VSPlane =
  getFrameWidth :: int
  getFrameHeight :: int
  getStride :: int
  getPtr :: "'t list"

text \<open>
  The template parameter \<^verbatim>\<open>T\<close> is passed as a record of what the templates use of it:
  whether it satisfies \<^verbatim>\<open>std::integral\<close> (otherwise \<^verbatim>\<open>std::floating_point\<close>),
  \<^verbatim>\<open>sizeof(T)\<close>, and the two conversions \<^verbatim>\<open>static_cast<float>\<close> and \<^verbatim>\<open>static_cast<T>\<close>.
  A sample of an unsigned type is a natural number.
\<close>

record 't PixelType =
  integral :: bool
  sizeof :: int
  to_float :: "'t \<Rightarrow> f32"
  from_float :: "f32 \<Rightarrow> error + 't"

definition cast_uint :: "nat \<Rightarrow> f32 \<Rightarrow> error + nat" where
  \<comment> \<open>\<^verbatim>\<open>static_cast\<close> to an unsigned type of \<open>w\<close> bits; undefined when the truncated value does not fit\<close>
  "cast_uint w v = (case v of NonFinite \<Rightarrow> Inl CastOutOfRange
     | NegZero \<Rightarrow> Inr 0
     | Fin q \<Rightarrow> if 0 \<le> trunc q \<and> trunc q < 2 ^ w then Inr (nat (trunc q))
                 else Inl CastOutOfRange)"

definition uint_t :: "nat \<Rightarrow> nat PixelType" where
  "uint_t w = \<lparr>integral = True, sizeof = int w div 8,
              to_float = (\<lambda>v. float_of_int (int v)), from_float = cast_uint w\<rparr>"

definition uint8_t :: "nat PixelType" where "uint8_t = uint_t 8"

definition uint16_t :: "nat PixelType" where "uint16_t = uint_t 16"

definition uint32_t :: "nat PixelType" where "uint32_t = uint_t 32"

definition float_t :: "f32 PixelType" where
  "float_t = \<lparr>integral = False, sizeof = 4, to_float = (\<lambda>v. v), from_float = Inr\<rparr>"

definition KERNEL :: "int list" where
  "KERNEL = [1, 4, 6, 4, 1]"

definition KERNEL_at :: "int \<Rightarrow> error + int" where
  \<comment> \<open>\<^verbatim>\<open>KERNEL.at(i)\<close> throws \<^verbatim>\<open>std::out_of_range\<close> outside the array\<close>
  "KERNEL_at i = (if 0 \<le> i \<and> i < 5 then Inr (KERNEL ! nat i) else Inl KernelOutOfRange)"

definition get_neutral :: "'t PixelType \<Rightarrow> VSVideoFormat \<Rightarrow> error + f32" where
  "get_neutral T fi =
     (if \<not> integral T then Inr (Fin 0)
      else case shl1 32 (bitsPerSample fi - 1) of Inl e \<Rightarrow> Inl e
           | Inr v \<Rightarrow> Inr (float_of_int v))"

definition get_max :: "'t PixelType \<Rightarrow> VSVideoFormat \<Rightarrow> error + f32" where
  "get_max T fi =
     (if \<not> integral T then Inr (Fin 1)
      else case shl1 64 (bitsPerSample fi) of Inl e \<Rightarrow> Inl e
           | Inr v \<Rightarrow> if v - 1 < - (2 ^ 63) then Inl SignedOverflow
                      else Inr (float_of_int (v - 1)))"

section \<open>The convolution engine\<close>

definition mirror_boundary :: "int \<Rightarrow> int \<Rightarrow> error + int" where
  "mirror_boundary pos max_pos =
     (if pos < 0 then checked_int (- pos)
      else if pos \<ge> max_pos then
        (case checked_int (2 * max_pos) of Inl e \<Rightarrow> Inl e
         | Inr twice \<Rightarrow>
           (case checked_int (twice - 2) of Inl e \<Rightarrow> Inl e
            | Inr less2 \<Rightarrow> checked_int (less2 - pos)))
      else Inr pos)"

definition conv_h_sum :: "'t PixelType \<Rightarrow> 't list \<Rightarrow> int \<Rightarrow> int \<Rightarrow> int \<Rightarrow> int \<Rightarrow> int
    \<Rightarrow> error + f32" where
  \<comment> \<open>the loop over \<open>k\<close> of \<^verbatim>\<open>conv_h\<close> at column \<open>x\<close> of row \<open>y\<close>\<close>
  "conv_h_sum T src width src_stride step x y =
     for_loop [- 2, - 1, 0, 1, 2] (\<lambda>k sum_k.
       case checked_int (k * step) of Inl e \<Rightarrow> Inl e
       | Inr k_step \<Rightarrow>
         (case checked_int (x + k_step) of Inl e \<Rightarrow> Inl e
          | Inr pos \<Rightarrow>
            (case mirror_boundary pos width of Inl e \<Rightarrow> Inl e
             | Inr offset_idx \<Rightarrow>
               (case read_row src (y * src_stride) width offset_idx of Inl e \<Rightarrow> Inl e
                | Inr v \<Rightarrow>
                  (case KERNEL_at (k + 2) of Inl e \<Rightarrow> Inl e
                   | Inr c \<Rightarrow> Inr (fadd sum_k (fmul (to_float T v) (float_of_int c))))))))
       (Fin 0)"

definition conv_h :: "'t PixelType \<Rightarrow> 't list \<Rightarrow> f32 list \<Rightarrow> int \<Rightarrow> int \<Rightarrow> int \<Rightarrow> int
    \<Rightarrow> error + f32 list" where
  "conv_h T src dst width height src_stride step =
     for_loop (counting height) (\<lambda>y dst.
       case checked_int (y * width) of Inl e \<Rightarrow> Inl e
       | Inr dst_row \<Rightarrow>
         for_loop (counting width) (\<lambda>x dst.
           case conv_h_sum T src width src_stride step x y of Inl e \<Rightarrow> Inl e
           | Inr sum_k \<Rightarrow> write_at dst (dst_row + x) sum_k) dst) dst"

definition conv_v_sum :: "f32 list \<Rightarrow> int \<Rightarrow> int \<Rightarrow> int \<Rightarrow> int \<Rightarrow> int \<Rightarrow> error + f32" where
  \<comment> \<open>the loop over \<open>k\<close> of \<^verbatim>\<open>conv_v_and_extract\<close> at column \<open>x\<close> of row \<open>y\<close>\<close>
  "conv_v_sum temp_src width height step x y =
     for_loop [- 2, - 1, 0, 1, 2] (\<lambda>k sum_k.
       case checked_int (k * step) of Inl e \<Rightarrow> Inl e
       | Inr k_step \<Rightarrow>
         (case checked_int (y + k_step) of Inl e \<Rightarrow> Inl e
          | Inr pos \<Rightarrow>
            (case mirror_boundary pos height of Inl e \<Rightarrow> Inl e
             | Inr y_tap \<Rightarrow>
               (case checked_int (y_tap * width) of Inl e \<Rightarrow> Inl e
                | Inr row \<Rightarrow>
                  (case checked_int (row + x) of Inl e \<Rightarrow> Inl e
                   | Inr idx \<Rightarrow>
                     (case read_at temp_src idx of Inl e \<Rightarrow> Inl e
                      | Inr v \<Rightarrow>
                        (case KERNEL_at (k + 2) of Inl e \<Rightarrow> Inl e
                         | Inr c \<Rightarrow> Inr (fadd sum_k (fmul v (float_of_int c))))))))))
       (Fin 0)"

definition store_detail :: "'t PixelType \<Rightarrow> f32 \<Rightarrow> f32 \<Rightarrow> error + 't" where
  \<comment> \<open>the \<^verbatim>\<open>if constexpr (std::integral<T>)\<close> at the end of both pixel loops; for an integral
     \<^verbatim>\<open>T\<close> every operand is the conversion of an integer, hence finite\<close>
  "store_detail T val max_val =
     (if integral T then
        (case (val, max_val) of
           (Fin d, Fin m) \<Rightarrow> from_float T (Fin (clamp (fround d) 0 m))
         | (NegZero, Fin m) \<Rightarrow> from_float T (Fin (clamp 0 0 m))
         | _ \<Rightarrow> Inl NotFinite)
      else from_float T val)"

definition conv_v_pixel :: "'t PixelType \<Rightarrow> f32 list \<Rightarrow> 't list \<Rightarrow> int \<Rightarrow> int \<Rightarrow> int \<Rightarrow> int
    \<Rightarrow> f32 \<Rightarrow> f32 \<Rightarrow> int \<Rightarrow> int \<Rightarrow> error + 't" where
  \<comment> \<open>the body of the pixel loop of \<^verbatim>\<open>conv_v_and_extract\<close>, up to the value it stores\<close>
  "conv_v_pixel T temp_src orig_src width height src_stride step neutral max_val x y =
     (case conv_v_sum temp_src width height step x y of Inl e \<Rightarrow> Inl e
      | Inr sum_k \<Rightarrow>
        (let blurred_pixel = fdiv sum_k (Fin 256) in
         (case read_row orig_src (y * src_stride) width x of Inl e \<Rightarrow> Inl e
          | Inr p \<Rightarrow>
            (let original_pixel = to_float T p;
                 detail = fadd (fsub original_pixel blurred_pixel) neutral
             in store_detail T detail max_val))))"

definition conv_v_and_extract :: "'t PixelType \<Rightarrow> f32 list \<Rightarrow> 't list \<Rightarrow> 't list \<Rightarrow> int \<Rightarrow> int
    \<Rightarrow> int \<Rightarrow> int \<Rightarrow> int \<Rightarrow> VSVideoFormat \<Rightarrow> error + 't list" where
  "conv_v_and_extract T temp_src orig_src dst width height src_stride dst_stride step fi =
     (case get_neutral T fi of Inl e \<Rightarrow> Inl e
      | Inr neutral \<Rightarrow>
        (case get_max T fi of Inl e \<Rightarrow> Inl e
         | Inr max_val \<Rightarrow>
           for_loop (counting height) (\<lambda>y.
             for_loop (counting width) (\<lambda>x dst.
               case conv_v_pixel T temp_src orig_src width height src_stride step
                      neutral max_val x y of Inl e \<Rightarrow> Inl e
               | Inr v \<Rightarrow> write_at dst ((y * dst_stride) + x) v)) dst))"

definition process_extract_plane :: "'t PixelType \<Rightarrow> 't VSPlane \<Rightarrow> 't VSPlane \<Rightarrow> int
    \<Rightarrow> VSVideoFormat \<Rightarrow> error + 't VSPlane" where
  "process_extract_plane T src dst radius fi =
     (let width = getFrameWidth src;
          height = getFrameHeight src;
          src_stride = getStride src div sizeof T;
          dst_stride = getStride dst div sizeof T
      in case shl1 32 (radius - 1) of Inl e \<Rightarrow> Inl e
      | Inr step \<Rightarrow>
        (let temp_buffer = replicate (nat (width * height)) (Fin 0) in
         (case conv_h T (getPtr src) temp_buffer width height src_stride step of
            Inl e \<Rightarrow> Inl e
          | Inr temp \<Rightarrow>
            (case conv_v_and_extract T temp (getPtr src) (getPtr dst) width height
                    src_stride dst_stride step fi of Inl e \<Rightarrow> Inl e
             | Inr dstp \<Rightarrow> Inr (dst\<lparr>getPtr := dstp\<rparr>)))))"

definition replace_pixel :: "'t PixelType \<Rightarrow> 't list \<Rightarrow> 't list \<Rightarrow> int \<Rightarrow> f32 \<Rightarrow> f32
    \<Rightarrow> int \<Rightarrow> int \<Rightarrow> error + 't" where
  \<comment> \<open>the body of the pixel loop of \<^verbatim>\<open>ProcessReplacePlane\<close>, up to the value it stores;
     \<^verbatim>\<open>basep\<close> and \<^verbatim>\<open>detailp\<close> have been advanced by \<open>stride\<close> once per row\<close>
  "replace_pixel T basep detailp stride neutral max_val x y =
     (case read_at basep ((y * stride) + x) of Inl e \<Rightarrow> Inl e
      | Inr bp \<Rightarrow>
        (case read_at detailp ((y * stride) + x) of Inl e \<Rightarrow> Inl e
         | Inr dp \<Rightarrow>
           (let b = to_float T bp;
                d = to_float T dp;
                val = fsub (fadd b d) neutral
            in store_detail T val max_val)))"

definition ProcessReplacePlane :: "'t PixelType \<Rightarrow> 't VSPlane \<Rightarrow> 't VSPlane \<Rightarrow> 't VSPlane
    \<Rightarrow> VSVideoFormat \<Rightarrow> error + 't VSPlane" where
  "ProcessReplacePlane T base detail dst fi =
     (let width = getFrameWidth dst;
          height = getFrameHeight dst;
          stride = getStride dst div sizeof T
      in case get_neutral T fi of Inl e \<Rightarrow> Inl e
      | Inr neutral \<Rightarrow>
        (case get_max T fi of Inl e \<Rightarrow> Inl e
         | Inr max_val \<Rightarrow>
           (case for_loop (counting height) (\<lambda>y.
                   for_loop (counting width) (\<lambda>x dstp.
                     case replace_pixel T (getPtr base) (getPtr detail) stride
                            neutral max_val x y of Inl e \<Rightarrow> Inl e
                     | Inr v \<Rightarrow> write_at dstp ((y * stride) + x) v)) (getPtr dst)
            of Inl e \<Rightarrow> Inl e
            | Inr dstp \<Rightarrow> Inr (dst\<lparr>getPtr := dstp\<rparr>))))"

section \<open>Filter construction\<close>

text \<open>
  \<^verbatim>\<open>ExtractCreate\<close> and \<^verbatim>\<open>ReplaceCreate\<close> read their arguments, validate them, and either
  report an error through \<^verbatim>\<open>mapSetError\<close> and return (\<open>Inl\<close> with the message: no filter
  exists, so no frame is ever requested from it) or register the filter with its instance
  data (\<open>Inr\<close>). The optional argument \<^verbatim>\<open>radius\<close> is \<open>None\<close> when the caller left it out.
  \<^verbatim>\<open>int64ToIntS\<close>, \<^verbatim>\<open>isConstantVideoFormat\<close> and \<^verbatim>\<open>isSameVideoFormat\<close> are inline helpers
  of the host's VSHelper4.h; the node handles of the instance data are left out.
\<close>

definition int64ToIntS :: "int \<Rightarrow> int" where
  "int64ToIntS i = (if i > 2147483647 then 2147483647
                    else if i < - 2147483648 then - 2147483648 else i)"

definition isConstantVideoFormat :: "VSVideoInfo \<Rightarrow> bool" where
  "isConstantVideoFormat vi \<longleftrightarrow>
     vi_height vi > 0 \<and> vi_width vi > 0 \<and> colorFamily (format vi) \<noteq> cfUndefined"

definition isSameVideoFormat :: "VSVideoFormat \<Rightarrow> VSVideoFormat \<Rightarrow> bool" where
  "isSameVideoFormat v1 v2 \<longleftrightarrow>
     colorFamily v1 = colorFamily v2 \<and> sampleType v1 = sampleType v2 \<and>
     bitsPerSample v1 = bitsPerSample v2 \<and> subSamplingW v1 = subSamplingW v2 \<and>
     subSamplingH v1 = subSamplingH v2"

record ATWTData =
  ATWT_vi :: VSVideoInfo
  ATWT_radius :: int

record ReplaceData =
  Replace_vi :: VSVideoInfo

definition ExtractCreate :: "VSVideoInfo \<Rightarrow> int option \<Rightarrow> string + ATWTData" where
  "ExtractCreate vi radius_arg =
     (let radius = (case radius_arg of None \<Rightarrow> 1 | Some r \<Rightarrow> int64ToIntS r) in
      if radius < 1 then Inl ''ExtractFrequency: radius must be >= 1''
      else if \<not> isConstantVideoFormat vi then
        Inl ''ExtractFrequency: only clips with constant format are accepted''
      else if (bitsPerSample (format vi) < 8 \<or> bitsPerSample (format vi) > 16 \<or>
               sampleType (format vi) \<noteq> stInteger) \<and>
              (bitsPerSample (format vi) \<noteq> 32 \<or> sampleType (format vi) \<noteq> stFloat) then
        Inl ''ExtractFrequency: only 8-16 bit integer or 32 bit float input are accepted''
      else Inr \<lparr>ATWT_vi = vi, ATWT_radius = radius\<rparr>)"

definition ReplaceCreate :: "VSVideoInfo \<Rightarrow> VSVideoInfo \<Rightarrow> string + ReplaceData" where
  "ReplaceCreate base_vi vi_detail =
     (if \<not> isSameVideoFormat (format base_vi) (format vi_detail) then
        Inl ''ReplaceFrequency: base and detail must have the same format and dimensions''
      else if ((bitsPerSample (format base_vi) < 8 \<or> bitsPerSample (format base_vi) > 16 \<or>
                sampleType (format base_vi) \<noteq> stInteger) \<and>
               (bitsPerSample (format base_vi) \<noteq> 32 \<or> sampleType (format base_vi) \<noteq> stFloat)) \<or>
              \<not> isConstantVideoFormat base_vi then
        Inl ''ReplaceFrequency: only constant 8-16 bit integer or 32 bit float input are accepted''
      else Inr \<lparr>Replace_vi = base_vi\<rparr>)"

section \<open>What the specification says\<close>

text \<open>
  The definitions of this section follow the specification, to be compared with the code.
  A plane is addressed by column \<open>x\<close> and row \<open>y\<close>; \<open>plane_ok\<close> says that its rows fit
  their stride and its buffer. \<open>mirror\<close> is the reflection of the specification on the
  mathematical integers; the function \<open>mirror_boundary\<close> of the code computes it in \<^verbatim>\<open>int\<close>.
\<close>

definition plane_ok :: "'t PixelType \<Rightarrow> 't VSPlane \<Rightarrow> bool" where
  "plane_ok T p \<longleftrightarrow>
     0 \<le> getFrameWidth p \<and> 0 \<le> getFrameHeight p \<and>
     getFrameWidth p \<le> getStride p div sizeof T \<and>
     (getStride p div sizeof T) * getFrameHeight p \<le> int (length (getPtr p))"

definition pixel_at :: "'t PixelType \<Rightarrow> 't VSPlane \<Rightarrow> int \<Rightarrow> int \<Rightarrow> 't" where
  "pixel_at T p x y = getPtr p ! nat ((y * (getStride p div sizeof T)) + x)"

definition mirror :: "int \<Rightarrow> int \<Rightarrow> int" where
  \<comment> \<open>the reflection without repetition of the specification, on the integers\<close>
  "mirror pos n = (if pos < 0 then - pos else if pos \<ge> n then 2 * n - 2 - pos else pos)"

definition dilation_step :: "int \<Rightarrow> int" where
  "dilation_step radius = 2 ^ nat (radius - 1)"

definition weighted5 :: "(int \<Rightarrow> f32) \<Rightarrow> f32" where
  "weighted5 g = foldl (\<lambda>s k. fadd s (fmul (g k) (float_of_int (KERNEL ! nat (k + 2)))))
     (Fin 0) [- 2, - 1, 0, 1, 2]"

definition horizontal_pass :: "'t PixelType \<Rightarrow> 't VSPlane \<Rightarrow> int \<Rightarrow> int \<Rightarrow> int \<Rightarrow> f32" where
  "horizontal_pass T src step x y =
     weighted5 (\<lambda>k. to_float T
       (pixel_at T src (mirror (x + (k * step)) (getFrameWidth src)) y))"

definition vertical_pass :: "'t PixelType \<Rightarrow> 't VSPlane \<Rightarrow> int \<Rightarrow> int \<Rightarrow> int \<Rightarrow> f32" where
  "vertical_pass T src step x y =
     weighted5 (\<lambda>k. horizontal_pass T src step x
       (mirror (y + (k * step)) (getFrameHeight src)))"

definition detail_value :: "'t PixelType \<Rightarrow> 't VSPlane \<Rightarrow> f32 \<Rightarrow> int \<Rightarrow> int \<Rightarrow> int \<Rightarrow> f32" where
  "detail_value T src neutral step x y =
     (let blurred = fdiv (vertical_pass T src step x y) (Fin 256)
      in fadd (fsub (to_float T (pixel_at T src x y)) blurred) neutral)"

definition replace_value :: "'t PixelType \<Rightarrow> 't VSPlane \<Rightarrow> 't VSPlane \<Rightarrow> int \<Rightarrow> f32 \<Rightarrow> int \<Rightarrow> int \<Rightarrow> f32" where
  "replace_value T base detail stride neutral x y =
     fsub (fadd (to_float T (getPtr base ! nat ((y * stride) + x)))
                (to_float T (getPtr detail ! nat ((y * stride) + x)))) neutral"

definition wsum5 :: "(int \<Rightarrow> int) \<Rightarrow> int" where
  "wsum5 a = a (- 2) + 4 * a (- 1) + 6 * a 0 + 4 * a 1 + a 2"

definition quantize :: "int \<Rightarrow> rat \<Rightarrow> int" where
  "quantize bits q = (let r = round_half_away q in
     if r < 0 then 0 else if 2 ^ nat bits - 1 < r then 2 ^ nat bits - 1 else r)"

definition hsum :: "nat PixelType \<Rightarrow> nat VSPlane \<Rightarrow> int \<Rightarrow> int \<Rightarrow> int \<Rightarrow> int" where
  "hsum T src step x y =
     wsum5 (\<lambda>k. int (pixel_at T src (mirror (x + (k * step)) (getFrameWidth src)) y))"

definition blur_sum :: "nat PixelType \<Rightarrow> nat VSPlane \<Rightarrow> int \<Rightarrow> int \<Rightarrow> int \<Rightarrow> int" where
  "blur_sum T src step x y =
     wsum5 (\<lambda>k. hsum T src step x (mirror (y + (k * step)) (getFrameHeight src)))"

definition samples_below :: "nat PixelType \<Rightarrow> nat VSPlane \<Rightarrow> int \<Rightarrow> bool" where
  "samples_below T p b \<longleftrightarrow>
     (\<forall>x y. 0 \<le> x \<and> x < getFrameWidth p \<and> 0 \<le> y \<and> y < getFrameHeight p
        \<longrightarrow> int (pixel_at T p x y) < b)"

definition Extract_int :: "nat PixelType \<Rightarrow> VSVideoFormat \<Rightarrow> nat VSPlane \<Rightarrow> int \<Rightarrow> int \<Rightarrow> int \<Rightarrow> nat" where
  "Extract_int T fi src step x y =
     nat (quantize (bitsPerSample fi)
       (of_int (int (pixel_at T src x y)) - of_int (blur_sum T src step x y) / 256
          + 2 ^ nat (bitsPerSample fi - 1)))"

definition Replace_int :: "int \<Rightarrow> nat \<Rightarrow> nat \<Rightarrow> nat" where
  "Replace_int bits b d =
     nat (quantize bits (of_int (int b) + of_int (int d) - 2 ^ nat (bits - 1)))"

definition accepted_format :: "VSVideoFormat \<Rightarrow> bool" where
  \<comment> \<open>the accepted set of the specification: 8 to 16 bit integer, or 32 bit float\<close>
  "accepted_format f \<longleftrightarrow>
     (sampleType f = stInteger \<and> 8 \<le> bitsPerSample f \<and> bitsPerSample f \<le> 16) \<or>
     (sampleType f = stFloat \<and> bitsPerSample f = 32)"

definition example_format8 :: VSVideoFormat where
  "example_format8 = \<lparr>colorFamily = cfGray, sampleType = stInteger, bitsPerSample = 8,
     bytesPerSample = 1, subSamplingW = 0, subSamplingH = 0, numPlanes = 1\<rparr>"

definition example_plane :: "int \<Rightarrow> int \<Rightarrow> 'a list \<Rightarrow> 'a VSPlane" where
  \<comment> \<open>a plane of one-byte samples without padding\<close>
  "example_plane w h xs = \<lparr>getFrameWidth = w, getFrameHeight = h, getStride = w, getPtr = xs\<rparr>"

definition example_clip :: "VSVideoFormat \<Rightarrow> int \<Rightarrow> int \<Rightarrow> VSVideoInfo" where
  "example_clip f w h = \<lparr>format = f, fpsNum = 24, fpsDen = 1, vi_width = w, vi_height = h,
     numFrames = 1\<rparr>"

definition in_plane :: "'t VSPlane \<Rightarrow> int \<Rightarrow> int \<Rightarrow> bool" where
  "in_plane p x y \<longleftrightarrow> 0 \<le> x \<and> x < getFrameWidth p \<and> 0 \<le> y \<and> y < getFrameHeight p"

definition same_size :: "'a VSPlane \<Rightarrow> 'b VSPlane \<Rightarrow> bool" where
  "same_size p q \<longleftrightarrow> getFrameWidth p = getFrameWidth q \<and> getFrameHeight p = getFrameHeight q"

definition same_layout :: "'a VSPlane \<Rightarrow> 'b VSPlane \<Rightarrow> bool" where
  "same_layout p q \<longleftrightarrow> same_size p q \<and> getStride p = getStride q
     \<and> length (getPtr p) = length (getPtr q)"

definition taps_in_bounds :: "'t VSPlane \<Rightarrow> int \<Rightarrow> bool" where
  \<comment> \<open>the dilation step of the radius satisfies \<open>2 * step \<le> size - 1\<close> on both axes, and the
     plane has at most \<open>2^31 - 1\<close> samples, so that their indices are values of \<^verbatim>\<open>int\<close>\<close>
  "taps_in_bounds p radius \<longleftrightarrow> 1 \<le> radius \<and> radius \<le> 31
     \<and> 2 * dilation_step radius \<le> getFrameWidth p - 1
     \<and> 2 * dilation_step radius \<le> getFrameHeight p - 1
     \<and> getFrameWidth p * getFrameHeight p \<le> 2147483647"

definition uint_plane :: "nat \<Rightarrow> nat VSPlane \<Rightarrow> bool" where
  \<comment> \<open>a plane of unsigned samples of \<open>W\<close> bits each\<close>
  "uint_plane W p \<longleftrightarrow> plane_ok (uint_t W) p \<and> samples_below (uint_t W) p (2 ^ W)"

definition integer_format :: "nat \<Rightarrow> VSVideoFormat \<Rightarrow> bool" where
  \<comment> \<open>an accepted integer format, with the width \<open>W\<close> of the type the frame callbacks
     instantiate for it: \<^verbatim>\<open>uint8_t\<close> for one byte per sample, \<^verbatim>\<open>uint16_t\<close> for two\<close>
  "integer_format W fi \<longleftrightarrow> sampleType fi = stInteger \<and> (W = 8 \<or> W = 16)
     \<and> int W = 8 * bytesPerSample fi \<and> 8 \<le> bitsPerSample fi \<and> bitsPerSample fi \<le> int W"

definition packed_plane :: "'t PixelType \<Rightarrow> int \<Rightarrow> int \<Rightarrow> 't list \<Rightarrow> 't VSPlane" where
  \<comment> \<open>a plane without padding\<close>
  "packed_plane T w h xs =
     \<lparr>getFrameWidth = w, getFrameHeight = h, getStride = w * sizeof T, getPtr = xs\<rparr>"

definition example_format16 :: VSVideoFormat where
  "example_format16 = \<lparr>colorFamily = cfGray, sampleType = stInteger, bitsPerSample = 10,
     bytesPerSample = 2, subSamplingW = 0, subSamplingH = 0, numPlanes = 1\<rparr>"

definition example_formatS :: VSVideoFormat where
  "example_formatS = \<lparr>colorFamily = cfGray, sampleType = stFloat, bitsPerSample = 32,
     bytesPerSample = 4, subSamplingW = 0, subSamplingH = 0, numPlanes = 1\<rparr>"

definition flat_plane :: "'t PixelType \<Rightarrow> int \<Rightarrow> int \<Rightarrow> 't \<Rightarrow> 't VSPlane" where
  \<comment> \<open>a constant-valued plane without padding\<close>
  "flat_plane T w h c = packed_plane T w h (replicate (nat (w * h)) c)"

definition constant_plane :: "'t PixelType \<Rightarrow> 't VSPlane \<Rightarrow> 't \<Rightarrow> bool" where
  "constant_plane T p c \<longleftrightarrow> (\<forall>x y. in_plane p x y \<longrightarrow> pixel_at T p x y = c)"

definition MakeLowBand_int :: "nat VSPlane \<Rightarrow> nat VSPlane \<Rightarrow> nat VSPlane" where
  \<comment> \<open>Modelled from the spec: \<^verbatim>\<open>MakeLowBand(S) = S - Extract(S, r)\<close>, the difference of each pair of
     samples; a difference of unsigned samples does not go below 0\<close>
  "MakeLowBand_int S D = S\<lparr>getPtr := map2 (\<lambda>s d. s - d) (getPtr S) (getPtr D)\<rparr>"

definition MakeDiff_int :: "VSVideoFormat \<Rightarrow> nat VSPlane \<Rightarrow> nat VSPlane \<Rightarrow> nat VSPlane" where
  \<comment> \<open>the difference offset by the neutral value and clamped to the range of the format, as the
     host's \<^verbatim>\<open>std.MakeDiff\<close> forms it in the helper \<^verbatim>\<open>atwt_decompose\<close> of the README\<close>
  "MakeDiff_int fi S D = S\<lparr>getPtr :=
     map2 (\<lambda>s d. nat (max 0 (min (2 ^ nat (bitsPerSample fi) - 1)
                      (int s - int d + 2 ^ nat (bitsPerSample fi - 1)))))
       (getPtr S) (getPtr D)\<rparr>"

definition reconstruct :: "'t PixelType \<Rightarrow> VSVideoFormat \<Rightarrow> ('t VSPlane \<Rightarrow> 't VSPlane \<Rightarrow> 't VSPlane)
    \<Rightarrow> 't VSPlane \<Rightarrow> 't VSPlane \<Rightarrow> 't VSPlane \<Rightarrow> int \<Rightarrow> error + 't VSPlane" where
  \<comment> \<open>\<^verbatim>\<open>Replace(MakeLowBand(S), Extract(S, radius))\<close>, the low band formed by \<open>low\<close>; \<open>dst1\<close> and
     \<open>dst2\<close> are the frames the two filters allocate for their results\<close>
  "reconstruct T fi low S dst1 dst2 radius =
     (case process_extract_plane T S dst1 radius fi of Inl e \<Rightarrow> Inl e
      | Inr D \<Rightarrow> ProcessReplacePlane T (low S D) D dst2 fi)"

definition example_samples :: "nat list" where
  \<comment> \<open>the 25 samples of a plane of 5 by 5, row by row\<close>
  "example_samples = [12, 200, 7, 255, 0,  31, 64, 128, 99, 3,  250, 1, 77, 180, 45,
                      90, 160, 210, 5, 33,  120, 66, 254, 8, 19]"

definition MakeLowBand_float :: "f32 VSPlane \<Rightarrow> f32 VSPlane \<Rightarrow> f32 VSPlane" where
  \<comment> \<open>Modelled from the spec: \<^verbatim>\<open>MakeLowBand(S) = S - Extract(S, r)\<close>, the single-precision
     difference of each pair of samples\<close>
  "MakeLowBand_float S D = S\<lparr>getPtr := map2 fsub (getPtr S) (getPtr D)\<rparr>"

definition exact_difference :: "f32 \<Rightarrow> f32 \<Rightarrow> bool" where
  \<comment> \<open>both samples are finite and neither is the negative zero, the first is a
     single-precision number, and their difference is one too, so that the subtraction does
     not round\<close>
  "exact_difference s d \<longleftrightarrow>
     (case (s, d) of (Fin sv, Fin dv) \<Rightarrow> fl sv = Fin sv \<and> fl (sv - dv) = Fin (sv - dv)
      | _ \<Rightarrow> False)"

definition example_float_samples :: "f32 list" where
  \<comment> \<open>the 25 samples of a plane of 5 by 5, row by row: all 1.0 but the centre, \<open>2^-26\<close>\<close>
  "example_float_samples =
     replicate 12 (Fin 1) @ [Fin (1 / 67108864)] @ replicate 12 (Fin 1)"

section \<open>Facts about the arithmetic\<close>

lemma pow2_powi: "pow2 e = 2 powi e"
  by (simp add: pow2_def power_int_def field_simps)

lemma pow2_pos [simp]: "0 < pow2 e"
  by (simp add: pow2_def)

lemma pow2_add: "pow2 (a + b) = pow2 a * pow2 b"
  by (simp add: pow2_powi power_int_add)

lemma pow2_nat: "0 \<le> e \<Longrightarrow> pow2 e = 2 ^ nat e"
  by (simp add: pow2_def)

lemma pow2_nonzero [simp]: "pow2 e \<noteq> 0"
  by (simp add: pow2_def)

lemma pow2_abs [simp]: "\<bar>pow2 e\<bar> = pow2 e"
  by (simp add: pow2_def)

lemma pow2_less_iff: "pow2 a < pow2 b \<longleftrightarrow> a < b"
proof
  assume "pow2 a < pow2 b"
  show "a < b"
  proof (rule ccontr)
    assume "\<not> a < b"
    then have "b \<le> a" by simp
    then have "pow2 b \<le> pow2 a" unfolding pow2_powi by (intro power_int_increasing) auto
    with \<open>pow2 a < pow2 b\<close> show False by simp
  qed
next
  assume "a < b"
  then show "pow2 a < pow2 b" unfolding pow2_powi by (intro power_int_strict_increasing) auto
qed

lemma pow2_le_iff: "pow2 a \<le> pow2 b \<longleftrightarrow> a \<le> b"
  using pow2_less_iff[of b a] by (auto simp: not_less[symmetric])

lemma ilog2n_bounds: "1 \<le> n \<Longrightarrow> 0 \<le> ilog2n n \<and> 2 ^ nat (ilog2n n) \<le> n \<and> n < 2 ^ nat (ilog2n n + 1)"
proof (induction n rule: ilog2n.induct)
  case (1 n)
  show ?case
  proof (cases "n < 2")
    case True
    with 1(2) show ?thesis by (simp add: ilog2n.simps)
  next
    case False
    then have h: "1 \<le> n div 2" by simp
    from 1(1)[OF False h] have ih: "0 \<le> ilog2n (n div 2)" "2 ^ nat (ilog2n (n div 2)) \<le> n div 2"
      "n div 2 < 2 ^ nat (ilog2n (n div 2) + 1)" by auto
    have e: "ilog2n n = 1 + ilog2n (n div 2)" using False by (subst ilog2n.simps) simp
    have n1: "nat (1 + ilog2n (n div 2)) = Suc (nat (ilog2n (n div 2)))" using ih(1) by simp
    have n2: "nat (1 + ilog2n (n div 2) + 1) = Suc (nat (ilog2n (n div 2) + 1))" using ih(1) by simp
    show ?thesis unfolding e n1 n2 using ih by auto
  qed
qed

lemma ilog2_lower: assumes "q \<noteq> 0" shows "pow2 (ilog2 q) \<le> \<bar>q\<bar>"
proof (cases "1 \<le> \<bar>q\<bar>")
  case True
  then have f1: "1 \<le> \<lfloor>\<bar>q\<bar>\<rfloor>" by simp
  from ilog2n_bounds[OF f1] have b: "0 \<le> ilog2n \<lfloor>\<bar>q\<bar>\<rfloor>" "2 ^ nat (ilog2n \<lfloor>\<bar>q\<bar>\<rfloor>) \<le> \<lfloor>\<bar>q\<bar>\<rfloor>" by auto
  have "(of_int (2 ^ nat (ilog2n \<lfloor>\<bar>q\<bar>\<rfloor>)) :: rat) \<le> of_int \<lfloor>\<bar>q\<bar>\<rfloor>" using b(2) by (simp only: of_int_le_iff)
  also have "\<dots> \<le> \<bar>q\<bar>" by simp
  finally show ?thesis using True b(1) by (simp add: ilog2_def pow2_nat)
next
  case False
  define c where "c = \<lceil>1 / \<bar>q\<bar>\<rceil>"
  have qpos: "0 < \<bar>q\<bar>" using assms by simp
  have "1 < 1 / \<bar>q\<bar>" using False qpos by simp
  then have c2: "2 \<le> c" unfolding c_def by (simp add: less_ceiling_iff)
  then have f1: "1 \<le> c - 1" by simp
  from ilog2n_bounds[OF f1] have b: "0 \<le> ilog2n (c - 1)" "c - 1 < 2 ^ nat (ilog2n (c - 1) + 1)" by auto
  then have "c \<le> 2 ^ nat (ilog2n (c - 1) + 1)" by simp
  then have "(of_int c :: rat) \<le> of_int (2 ^ nat (ilog2n (c - 1) + 1))" by (simp only: of_int_le_iff)
  also have "\<dots> = 2 ^ nat (ilog2n (c - 1) + 1)" by simp
  finally have "(of_int c :: rat) \<le> 2 ^ nat (ilog2n (c - 1) + 1)" .
  moreover have "1 / \<bar>q\<bar> \<le> of_int c" unfolding c_def by (rule le_of_int_ceiling)
  ultimately have "1 / \<bar>q\<bar> \<le> 2 ^ nat (ilog2n (c - 1) + 1)" by (rule order_trans[rotated])
  then have "1 / 2 ^ nat (ilog2n (c - 1) + 1) \<le> \<bar>q\<bar>" using qpos
    by (simp add: field_simps)
  moreover have "ilog2 q = - (1 + ilog2n (c - 1))" using False by (simp add: ilog2_def c_def)
  ultimately show ?thesis using b(1) by (simp add: pow2_def add.commute)
qed

lemma ilog2_upper: assumes "q \<noteq> 0" shows "\<bar>q\<bar> < pow2 (ilog2 q + 1)"
proof (cases "1 \<le> \<bar>q\<bar>")
  case True
  then have f1: "1 \<le> \<lfloor>\<bar>q\<bar>\<rfloor>" by simp
  from ilog2n_bounds[OF f1] have b: "0 \<le> ilog2n \<lfloor>\<bar>q\<bar>\<rfloor>" "\<lfloor>\<bar>q\<bar>\<rfloor> < 2 ^ nat (ilog2n \<lfloor>\<bar>q\<bar>\<rfloor> + 1)" by auto
  have "\<bar>q\<bar> < of_int (2 ^ nat (ilog2n \<lfloor>\<bar>q\<bar>\<rfloor> + 1))" using b(2) by (simp only: floor_less_iff)
  then show ?thesis using True b(1) by (simp add: ilog2_def pow2_nat)
next
  case False
  define c where "c = \<lceil>1 / \<bar>q\<bar>\<rceil>"
  have qpos: "0 < \<bar>q\<bar>" using assms by simp
  have "1 < 1 / \<bar>q\<bar>" using False qpos by simp
  then have c2: "2 \<le> c" unfolding c_def by (simp add: less_ceiling_iff)
  then have f1: "1 \<le> c - 1" by simp
  from ilog2n_bounds[OF f1] have b: "0 \<le> ilog2n (c - 1)" "2 ^ nat (ilog2n (c - 1)) \<le> c - 1" by auto
  have "(of_int (2 ^ nat (ilog2n (c - 1))) :: rat) \<le> of_int (c - 1)" using b(2) by (simp only: of_int_le_iff)
  moreover have "of_int (c - 1) < 1 / \<bar>q\<bar>" unfolding c_def by linarith
  ultimately have "2 ^ nat (ilog2n (c - 1)) < 1 / \<bar>q\<bar>" by simp
  then have "\<bar>q\<bar> < 1 / 2 ^ nat (ilog2n (c - 1))" using qpos
    by (simp add: field_simps)
  moreover have "ilog2 q + 1 = - ilog2n (c - 1)" using False by (simp add: ilog2_def c_def)
  ultimately show ?thesis using b(1) False by (auto simp add: pow2_def)
qed

lemma ilog2_less: "q \<noteq> 0 \<Longrightarrow> \<bar>q\<bar> < pow2 k \<Longrightarrow> ilog2 q < k"
  using ilog2_lower[of q] pow2_less_iff[of "ilog2 q" k] by simp

lemma ilog2_ge: "q \<noteq> 0 \<Longrightarrow> pow2 k \<le> \<bar>q\<bar> \<Longrightarrow> k \<le> ilog2 q"
  using ilog2_upper[of q] pow2_less_iff[of k "ilog2 q + 1"] by simp

lemma round_even_of_int [simp]: "round_even (of_int n) = n"
  by (simp add: round_even_def)

lemma round_even_ge_floor: "\<lfloor>q\<rfloor> \<le> round_even q"
  by (simp add: round_even_def Let_def)

lemma fl_exact:
  assumes "\<bar>n\<bar> < 2 ^ 24" "- 149 \<le> e" "\<bar>of_int n * pow2 e\<bar> < 2 ^ 128"
  shows "fl (of_int n * pow2 e) = Fin (of_int n * pow2 e)"
proof (cases "n = 0")
  case True then show ?thesis by (simp add: fl_def)
next
  case False
  define q where "q = of_int n * pow2 e"
  have q0: "q \<noteq> 0" using False by (simp add: q_def less_imp_neq[OF pow2_pos, symmetric])
  have "\<bar>q\<bar> = of_int \<bar>n\<bar> * pow2 e" by (simp add: q_def abs_mult)
  also have "\<dots> < of_int (2 ^ 24) * pow2 e" using assms(1) by (simp only: mult_less_cancel_right_pos[OF pow2_pos] of_int_less_iff)
  also have "\<dots> = pow2 (24 + e)" by (simp add: pow2_add pow2_nat)
  finally have "ilog2 q < 24 + e" using ilog2_less[OF q0] by simp
  define E where "E = max (ilog2 q - 23) (- 149)"
  have Ee: "E \<le> e" using \<open>ilog2 q < 24 + e\<close> assms(2) by (simp add: E_def)
  have "pow2 e = pow2 (e - E) * pow2 E" by (simp add: pow2_add[symmetric])
  then have "q / pow2 E = of_int n * pow2 (e - E)" by (simp add: q_def)
  also have "\<dots> = of_int (n * 2 ^ nat (e - E))" using Ee by (simp add: pow2_nat)
  finally have "round_even (q / pow2 E) = n * 2 ^ nat (e - E)" by (simp only: round_even_of_int)
  then have "of_int (round_even (q / pow2 E)) * pow2 E = of_int n * (pow2 (e - E) * pow2 E)"
    using Ee by (simp add: pow2_nat)
  also have "\<dots> = q" by (simp add: q_def pow2_add[symmetric])
  finally have r: "of_int (round_even (q / pow2 E)) * pow2 E = q" .
  show ?thesis unfolding q_def[symmetric] using q0 r assms(3)
    by (simp add: fl_def Let_def E_def[symmetric] q_def[symmetric])
qed

section \<open>Facts about the loops\<close>

lemma for_loop_append:
  "for_loop (xs @ ys) body s =
     (case for_loop xs body s of Inl e \<Rightarrow> Inl e | Inr s' \<Rightarrow> for_loop ys body s')"
  by (induction xs arbitrary: s) (auto split: sum.splits)

lemma for_loop_upt_inv:
  assumes "I 0 s"
    and "\<And>i s. i < n \<Longrightarrow> I i s \<Longrightarrow> \<exists>s'. body (int i) s = Inr s' \<and> I (Suc i) s'"
  shows "\<exists>s'. for_loop (map int [0..<n]) body s = Inr s' \<and> I n s'"
  using assms(2)
proof (induction n)
  case 0
  then show ?case using assms(1) by simp
next
  case (Suc n)
  then obtain s1 where s1: "for_loop (map int [0..<n]) body s = Inr s1" "I n s1"
    by (meson less_Suc_eq)
  from Suc.prems[of n s1] s1(2) obtain s2 where "body (int n) s1 = Inr s2" "I (Suc n) s2"
    by auto
  then show ?case using s1(1) by (simp add: for_loop_append)
qed

lemma row_loop:
  fixes pixel :: "int \<Rightarrow> error + 'a"
  assumes px: "\<And>x. 0 \<le> x \<Longrightarrow> x < w \<Longrightarrow> pixel x = Inr (f x)"
    and b: "0 \<le> base" "base + w \<le> int (length d)"
  shows "\<exists>d'. for_loop (counting w)
            (\<lambda>x d. case pixel x of Inl e \<Rightarrow> Inl e | Inr v \<Rightarrow> write_at d (base + x) v) d = Inr d'
          \<and> length d' = length d
          \<and> (\<forall>x. 0 \<le> x \<and> x < w \<longrightarrow> d' ! nat (base + x) = f x)
          \<and> (\<forall>j. int j < base \<or> base + w \<le> int j \<longrightarrow> d' ! j = d ! j)"
proof -
  define I where "I = (\<lambda>(i::nat) d'. length d' = length d
      \<and> (\<forall>x. 0 \<le> x \<and> x < int i \<longrightarrow> d' ! nat (base + x) = f x)
      \<and> (\<forall>j. int j < base \<or> base + w \<le> int j \<longrightarrow> d' ! j = d ! j))"
  have I0: "I 0 d" by (auto simp: I_def)
  have step: "\<exists>s'. (case pixel (int i) of Inl e \<Rightarrow> Inl e | Inr v \<Rightarrow> write_at s (base + int i) v) = Inr s'
        \<and> I (Suc i) s'" if "i < nat w" "I i s" for i s
  proof -
    have iw: "int i < w" using that(1) by simp
    have p: "pixel (int i) = Inr (f (int i))" using px[of "int i"] iw by simp
    have len: "length s = length d" using that(2) by (simp add: I_def)
    have inr: "0 \<le> base + int i" "base + int i < int (length s)" using b iw len by auto
    have "I (Suc i) (s[nat (base + int i) := f (int i)])"
      unfolding I_def
    proof (intro conjI allI impI)
      show "length (s[nat (base + int i) := f (int i)]) = length d" using len by simp
    next
      fix x assume x: "0 \<le> x \<and> x < int (Suc i)"
      show "s[nat (base + int i) := f (int i)] ! nat (base + x) = f x"
      proof (cases "x = int i")
        case True
        then show ?thesis using inr by simp
      next
        case False
        then have "x < int i" using x by simp
        then have "s ! nat (base + x) = f x" using that(2) x by (simp add: I_def)
        moreover have "nat (base + int i) \<noteq> nat (base + x)" using False b(1) x
          by (simp add: eq_nat_nat_iff)
        ultimately show ?thesis by simp
      qed
    next
      fix j assume j: "int j < base \<or> base + w \<le> int j"
      have "0 \<le> base + int i" "base \<le> base + int i" "base + int i < base + w" using iw b(1) by auto
      with j have "nat (base + int i) \<noteq> j" by linarith
      moreover have "s ! j = d ! j" using that(2) j unfolding I_def by blast
      ultimately show "s[nat (base + int i) := f (int i)] ! j = d ! j" by simp
    qed
    then show ?thesis using p inr by (simp add: write_at_def)
  qed
  from for_loop_upt_inv[where I = I and s = d and n = "nat w" and body = "\<lambda>x d. case pixel x of Inl e \<Rightarrow> Inl e | Inr v \<Rightarrow> write_at d (base + x) v", OF I0 step]
  obtain d' where "for_loop (map int [0..<nat w])
      (\<lambda>x d. case pixel x of Inl e \<Rightarrow> Inl e | Inr v \<Rightarrow> write_at d (base + x) v) d = Inr d'" "I (nat w) d'"
    by blast
  then show ?thesis unfolding counting_def I_def by auto
qed

lemma plane_loop:
  fixes pixel :: "int \<Rightarrow> int \<Rightarrow> error + 'a"
  assumes px: "\<And>x y. 0 \<le> x \<Longrightarrow> x < w \<Longrightarrow> 0 \<le> y \<Longrightarrow> y < h \<Longrightarrow> pixel x y = Inr (f x y)"
    and b: "0 \<le> w" "w \<le> st" "st * h \<le> int (length d)"
  shows "\<exists>d'. for_loop (counting h) (\<lambda>y. for_loop (counting w)
            (\<lambda>x d. case pixel x y of Inl e \<Rightarrow> Inl e | Inr v \<Rightarrow> write_at d ((y * st) + x) v)) d = Inr d'
          \<and> length d' = length d
          \<and> (\<forall>x y. 0 \<le> x \<and> x < w \<and> 0 \<le> y \<and> y < h \<longrightarrow> d' ! nat ((y * st) + x) = f x y)"
proof -
  define I where "I = (\<lambda>(i::nat) d'. length d' = length d
      \<and> (\<forall>x y. 0 \<le> x \<and> x < w \<and> 0 \<le> y \<and> y < int i \<longrightarrow> d' ! nat ((y * st) + x) = f x y))"
  have I0: "I 0 d" by (auto simp: I_def)
  have step: "\<exists>s'. for_loop (counting w)
            (\<lambda>x d. case pixel x (int i) of Inl e \<Rightarrow> Inl e | Inr v \<Rightarrow> write_at d ((int i * st) + x) v) s = Inr s'
        \<and> I (Suc i) s'" if "i < nat h" "I i s" for i s
  proof -
    have ih: "int i < h" using that(1) by simp
    have len: "length s = length d" using that(2) by (simp add: I_def)
    have st0: "0 \<le> st" using b by simp
    have "int i * st + st \<le> st * h"
    proof -
      have "(int i + 1) * st \<le> h * st" using ih st0 by (intro mult_right_mono) auto
      then show ?thesis by (simp add: algebra_simps)
    qed
    then have bb: "0 \<le> int i * st" "int i * st + w \<le> int (length s)"
      using b st0 len by auto
    have pxr: "\<And>x. 0 \<le> x \<Longrightarrow> x < w \<Longrightarrow> pixel x (int i) = Inr (f x (int i))"
      using px ih by simp
    from row_loop[of w "\<lambda>x. pixel x (int i)" "\<lambda>x. f x (int i)" "int i * st" s, OF pxr bb]
    obtain d' where d': "for_loop (counting w)
            (\<lambda>x d. case pixel x (int i) of Inl e \<Rightarrow> Inl e | Inr v \<Rightarrow> write_at d ((int i * st) + x) v) s = Inr d'"
          "length d' = length s"
          "\<forall>x. 0 \<le> x \<and> x < w \<longrightarrow> d' ! nat (int i * st + x) = f x (int i)"
          "\<forall>j. int j < int i * st \<or> int i * st + w \<le> int j \<longrightarrow> d' ! j = s ! j"
      by blast
    have "I (Suc i) d'"
      unfolding I_def
    proof (intro conjI allI impI)
      show "length d' = length d" using d'(2) len by simp
    next
      fix x y assume xy: "0 \<le> x \<and> x < w \<and> 0 \<le> y \<and> y < int (Suc i)"
      show "d' ! nat (y * st + x) = f x y"
      proof (cases "y = int i")
        case True
        then show ?thesis using d'(3) xy by simp
      next
        case False
        then have yi: "y < int i" using xy by simp
        then have "(y + 1) * st \<le> int i * st" using st0 by (intro mult_right_mono) auto
        then have "y * st + x < int i * st" using xy b(2) by (simp add: algebra_simps)
        moreover have "0 \<le> y * st + x" using xy st0 by simp
        ultimately have "int (nat (y * st + x)) < int i * st" by simp
        then have "d' ! nat (y * st + x) = s ! nat (y * st + x)" using d'(4) by blast
        also have "\<dots> = f x y" using that(2) xy yi by (simp add: I_def)
        finally show ?thesis .
      qed
    qed
    then show ?thesis using d'(1) by blast
  qed
  from for_loop_upt_inv[where I = I and s = d and n = "nat h" and body = "\<lambda>y. for_loop (counting w)
            (\<lambda>x d. case pixel x y of Inl e \<Rightarrow> Inl e | Inr v \<Rightarrow> write_at d ((y * st) + x) v)", OF I0 step]
  obtain d' where "for_loop (map int [0..<nat h]) (\<lambda>y. for_loop (counting w)
            (\<lambda>x d. case pixel x y of Inl e \<Rightarrow> Inl e | Inr v \<Rightarrow> write_at d ((y * st) + x) v)) d = Inr d'" "I (nat h) d'"
    by blast
  then show ?thesis unfolding counting_def[of h] I_def by auto
qed

section \<open>Facts about the two passes\<close>

lemma mirror_in_range:
  assumes "0 \<le> step" "2 * step \<le> n - 1" "0 \<le> x" "x < n" "k \<in> {- 2, - 1, 0, 1, 2}"
  shows "0 \<le> mirror (x + (k * step)) n \<and> mirror (x + (k * step)) n < n"
  using assms by (auto simp: mirror_def)

lemma checked_int_ok: "- 2147483648 \<le> v \<Longrightarrow> v \<le> 2147483647 \<Longrightarrow> checked_int v = Inr v"
  by (simp add: checked_int_def)

lemma mirror_boundary_ok:
  assumes "- 2147483647 \<le> pos" "pos \<le> 2147483647" "1 \<le> n" "n \<le> 1073741823"
  shows "mirror_boundary pos n = Inr (mirror pos n)"
  using assms by (simp add: mirror_boundary_def mirror_def checked_int_def)

lemma tap_ok:
  assumes "0 \<le> step" "2 * step \<le> n - 1" "0 \<le> x" "x < n" "n \<le> 1073741823"
    and "k \<in> {- 2, - 1, 0, 1, 2}"
  shows "checked_int (k * step) = Inr (k * step)
       \<and> checked_int (x + (k * step)) = Inr (x + (k * step))
       \<and> mirror_boundary (x + (k * step)) n = Inr (mirror (x + (k * step)) n)
       \<and> 0 \<le> mirror (x + (k * step)) n \<and> mirror (x + (k * step)) n < n"
proof -
  have k: "- 2147483647 \<le> k * step" "k * step \<le> 2147483647"
    "- 2147483647 \<le> x + (k * step)" "x + (k * step) \<le> 2147483647"
    using assms by auto
  have n: "1 \<le> n" using assms by simp
  show ?thesis
    using checked_int_ok[of "k * step"] checked_int_ok[of "x + (k * step)"]
      mirror_boundary_ok[OF k(3,4) n assms(5)] mirror_in_range[OF assms(1-4,6)] k
    by simp
qed

lemma for_loop_cong:
  "(\<And>i s. i \<in> set xs \<Longrightarrow> f i s = g i s) \<Longrightarrow> for_loop xs f s = for_loop xs g s"
proof (induction xs arbitrary: s)
  case Nil
  then show ?case by simp
next
  case (Cons a xs)
  have "f a s = g a s" using Cons.prems by simp
  moreover have "for_loop xs f s' = for_loop xs g s'" for s'
    using Cons.IH[of s'] Cons.prems by simp
  ultimately show ?case by (simp split: sum.splits)
qed

lemma for_loop_Inr:
  "for_loop xs (\<lambda>k s. Inr (f k s)) s = Inr (foldl (\<lambda>s k. f k s) s xs)"
  by (induction xs arbitrary: s) simp_all

lemma KERNEL_at_tap: "k \<in> {- 2, - 1, 0, 1, 2} \<Longrightarrow> KERNEL_at (k + 2) = Inr (KERNEL ! nat (k + 2))"
  by (auto simp: KERNEL_at_def)

lemma conv_h_sum_ok:
  assumes m: "\<And>k. k \<in> {- 2, - 1, 0, 1, 2} \<Longrightarrow>
      checked_int (k * step) = Inr (k * step)
      \<and> checked_int (x + (k * step)) = Inr (x + (k * step))
      \<and> mirror_boundary (x + (k * step)) width = Inr (mirror (x + (k * step)) width)
      \<and> 0 \<le> mirror (x + (k * step)) width \<and> mirror (x + (k * step)) width < width"
    and b: "0 \<le> y * ss" "y * ss + width \<le> int (length src)"
  shows "conv_h_sum T src width ss step x y =
    Inr (weighted5 (\<lambda>k. to_float T (src ! nat (y * ss + mirror (x + (k * step)) width))))"
proof -
  have r: "read_row src (y * ss) width (mirror (x + (k * step)) width)
      = Inr (src ! nat (y * ss + mirror (x + (k * step)) width))"
    if "k \<in> {- 2, - 1, 0, 1, 2}" for k
    using m[OF that] b by (simp add: read_row_def read_at_def)
  have "conv_h_sum T src width ss step x y
      = for_loop [- 2, - 1, 0, 1, 2] (\<lambda>k s. Inr (fadd s
          (fmul (to_float T (src ! nat (y * ss + mirror (x + (k * step)) width)))
             (float_of_int (KERNEL ! nat (k + 2)))))) (Fin 0)"
    unfolding conv_h_sum_def
  proof (rule for_loop_cong)
    fix i :: int and s :: f32
    assume "i \<in> set [- 2, - 1, 0, 1, 2]"
    then have k: "i \<in> {- 2, - 1, 0, 1, 2}" by simp
    show "(case checked_int (i * step) of Inl e \<Rightarrow> Inl e
       | Inr k_step \<Rightarrow>
         (case checked_int (x + k_step) of Inl e \<Rightarrow> Inl e
          | Inr pos \<Rightarrow>
            (case mirror_boundary pos width of Inl e \<Rightarrow> Inl e
             | Inr offset_idx \<Rightarrow>
               (case read_row src (y * ss) width offset_idx of Inl e \<Rightarrow> Inl e
                | Inr v \<Rightarrow>
                  (case KERNEL_at (i + 2) of Inl e \<Rightarrow> Inl e
                   | Inr c \<Rightarrow> Inr (fadd s (fmul (to_float T v) (float_of_int c))))))))
      = Inr (fadd s (fmul (to_float T (src ! nat (y * ss + mirror (x + (i * step)) width)))
             (float_of_int (KERNEL ! nat (i + 2)))))"
      by (simp only: m[OF k] r[OF k] KERNEL_at_tap[OF k] sum.case)
  qed
  then show ?thesis by (simp only: for_loop_Inr weighted5_def)
qed

lemma conv_v_sum_ok:
  assumes m: "\<And>k. k \<in> {- 2, - 1, 0, 1, 2} \<Longrightarrow>
      checked_int (k * step) = Inr (k * step)
      \<and> checked_int (y + (k * step)) = Inr (y + (k * step))
      \<and> mirror_boundary (y + (k * step)) height = Inr (mirror (y + (k * step)) height)
      \<and> 0 \<le> mirror (y + (k * step)) height \<and> mirror (y + (k * step)) height < height"
    and b: "0 \<le> x" "x < width" "width * height \<le> int (length temp)"
    and sz: "width * height \<le> 2147483647"
  shows "conv_v_sum temp width height step x y =
    Inr (weighted5 (\<lambda>k. temp ! nat ((mirror (y + (k * step)) height * width) + x)))"
proof -
  have r: "read_at temp ((mirror (y + (k * step)) height * width) + x)
      = Inr (temp ! nat ((mirror (y + (k * step)) height * width) + x))
    \<and> checked_int (mirror (y + (k * step)) height * width)
      = Inr (mirror (y + (k * step)) height * width)
    \<and> checked_int ((mirror (y + (k * step)) height * width) + x)
      = Inr ((mirror (y + (k * step)) height * width) + x)"
    if "k \<in> {- 2, - 1, 0, 1, 2}" for k
  proof -
    define t where "t = mirror (y + (k * step)) height"
    have t: "0 \<le> t" "t < height" using m[OF that] by (auto simp: t_def)
    have "(t + 1) * width \<le> height * width" using t b by (intro mult_right_mono) auto
    then have lt: "t * width + x < width * height" using b by (simp add: algebra_simps)
    have ge: "0 \<le> t * width" "0 \<le> t * width + x" using t b by simp_all
    have "t * width \<le> t * width + x" using b by simp
    then have "checked_int (t * width) = Inr (t * width)"
      "checked_int (t * width + x) = Inr (t * width + x)"
      using lt ge sz by (simp_all add: checked_int_def)
    then show ?thesis using b lt ge unfolding t_def[symmetric] by (simp add: read_at_def)
  qed
  have "conv_v_sum temp width height step x y
      = for_loop [- 2, - 1, 0, 1, 2] (\<lambda>k s. Inr (fadd s
          (fmul (temp ! nat ((mirror (y + (k * step)) height * width) + x))
             (float_of_int (KERNEL ! nat (k + 2)))))) (Fin 0)"
    unfolding conv_v_sum_def
  proof (rule for_loop_cong)
    fix i :: int and s :: f32
    assume "i \<in> set [- 2, - 1, 0, 1, 2]"
    then have k: "i \<in> {- 2, - 1, 0, 1, 2}" by simp
    show "(case checked_int (i * step) of Inl e \<Rightarrow> Inl e
       | Inr k_step \<Rightarrow>
         (case checked_int (y + k_step) of Inl e \<Rightarrow> Inl e
          | Inr pos \<Rightarrow>
            (case mirror_boundary pos height of Inl e \<Rightarrow> Inl e
             | Inr y_tap \<Rightarrow>
               (case checked_int (y_tap * width) of Inl e \<Rightarrow> Inl e
                | Inr row \<Rightarrow>
                  (case checked_int (row + x) of Inl e \<Rightarrow> Inl e
                   | Inr idx \<Rightarrow>
                     (case read_at temp idx of Inl e \<Rightarrow> Inl e
                      | Inr v \<Rightarrow>
                        (case KERNEL_at (i + 2) of Inl e \<Rightarrow> Inl e
                         | Inr c \<Rightarrow> Inr (fadd s (fmul v (float_of_int c))))))))))
      = Inr (fadd s (fmul (temp ! nat ((mirror (y + (i * step)) height * width) + x))
             (float_of_int (KERNEL ! nat (i + 2)))))"
      by (simp only: m[OF k] r[OF k] KERNEL_at_tap[OF k] sum.case)
  qed
  then show ?thesis by (simp only: for_loop_Inr weighted5_def)
qed

lemma row_start_bounds:
  assumes "0 \<le> w" "w \<le> st" "st * h \<le> L" "0 \<le> y" "y < h"
  shows "0 \<le> y * st" "y * st + w \<le> (L::int)"
proof -
  have st0: "0 \<le> st" using assms by simp
  show "0 \<le> y * st" using assms st0 by simp
  have "(y + 1) * st \<le> h * st" using assms st0 by (intro mult_right_mono) auto
  then show "y * st + w \<le> L" using assms by (simp add: algebra_simps)
qed

lemma conv_h_ok:
  assumes ok: "plane_ok T src"
    and st: "0 \<le> step" "2 * step \<le> getFrameWidth src - 1"
    and sz: "getFrameWidth src \<le> 1073741823"
      "getFrameWidth src * getFrameHeight src \<le> 2147483647"
  shows "\<exists>temp. conv_h T (getPtr src)
           (replicate (nat (getFrameWidth src * getFrameHeight src)) (Fin 0))
           (getFrameWidth src) (getFrameHeight src) (getStride src div sizeof T) step = Inr temp
         \<and> int (length temp) = getFrameWidth src * getFrameHeight src
         \<and> (\<forall>x y. 0 \<le> x \<and> x < getFrameWidth src \<and> 0 \<le> y \<and> y < getFrameHeight src \<longrightarrow>
               temp ! nat ((y * getFrameWidth src) + x) = horizontal_pass T src step x y)"
proof -
  define w where "w = getFrameWidth src"
  define h where "h = getFrameHeight src"
  define ss where "ss = getStride src div sizeof T"
  have g: "0 \<le> w" "0 \<le> h" "w \<le> ss" "ss * h \<le> int (length (getPtr src))"
    using ok by (auto simp: plane_ok_def w_def h_def ss_def)
  have px: "conv_h_sum T (getPtr src) w ss step x y = Inr (horizontal_pass T src step x y)"
    if "0 \<le> x" "x < w" "0 \<le> y" "y < h" for x y
  proof -
    have m: "\<And>k. k \<in> {- 2, - 1, 0, 1, 2} \<Longrightarrow>
        checked_int (k * step) = Inr (k * step)
        \<and> checked_int (x + (k * step)) = Inr (x + (k * step))
        \<and> mirror_boundary (x + (k * step)) w = Inr (mirror (x + (k * step)) w)
        \<and> 0 \<le> mirror (x + (k * step)) w \<and> mirror (x + (k * step)) w < w"
      using tap_ok[OF st(1) _ that(1,2)] st(2) sz(1) by (simp add: w_def)
    from row_start_bounds[OF g(1) g(3) g(4) that(3,4)]
    have b: "0 \<le> y * ss" "y * ss + w \<le> int (length (getPtr src))" by auto
    show ?thesis
      using conv_h_sum_ok[where x = x and step = step and width = w and y = y and ss = ss
          and src = "getPtr src" and T = T, OF m b]
      by (simp add: horizontal_pass_def pixel_at_def w_def[symmetric] ss_def[symmetric])
  qed
  have len: "w * w \<ge> 0 \<and> w * h \<le> int (length (replicate (nat (w * h)) (Fin (0::rat))))"
    using g by simp
  from plane_loop[of w h "\<lambda>x y. conv_h_sum T (getPtr src) w ss step x y"
      "\<lambda>x y. horizontal_pass T src step x y" w "replicate (nat (w * h)) (Fin 0)", OF px g(1)]
    len
  obtain temp where temp: "for_loop (counting h) (\<lambda>y. for_loop (counting w)
            (\<lambda>x d. case conv_h_sum T (getPtr src) w ss step x y of Inl e \<Rightarrow> Inl e
                   | Inr v \<Rightarrow> write_at d ((y * w) + x) v)) (replicate (nat (w * h)) (Fin 0)) = Inr temp"
     "length temp = length (replicate (nat (w * h)) (Fin (0::rat)))"
     "\<forall>x y. 0 \<le> x \<and> x < w \<and> 0 \<le> y \<and> y < h \<longrightarrow> temp ! nat ((y * w) + x) = horizontal_pass T src step x y"
    by auto
  have row: "checked_int (y * w) = Inr (y * w)" if "y \<in> set (counting h)" for y
  proof -
    have y: "0 \<le> y" "y < h" using that by (auto simp: counting_def)
    have "(y + 1) * w \<le> h * w" using y g(1) by (intro mult_right_mono) auto
    then have "y * w \<le> w * h" using g(1) by (simp add: algebra_simps)
    moreover have "0 \<le> y * w" using y g(1) by simp
    ultimately show ?thesis using sz(2) by (simp add: checked_int_def w_def h_def)
  qed
  have "conv_h T (getPtr src) buf w h ss step
      = for_loop (counting h) (\<lambda>y. for_loop (counting w)
            (\<lambda>x d. case conv_h_sum T (getPtr src) w ss step x y of Inl e \<Rightarrow> Inl e
                   | Inr v \<Rightarrow> write_at d ((y * w) + x) v)) buf" for buf
    unfolding conv_h_def by (rule for_loop_cong) (simp add: row)
  with temp show ?thesis
    unfolding w_def[symmetric] h_def[symmetric] ss_def[symmetric]
    using g by auto
qed

lemma shl1_step: "1 \<le> radius \<Longrightarrow> radius \<le> 31 \<Longrightarrow> shl1 32 (radius - 1) = Inr (dilation_step radius)"
  by (simp add: shl1_def dilation_step_def)

lemma dilation_step_pos: "0 < dilation_step radius"
  by (simp add: dilation_step_def)

lemma axis_bounds:
  assumes "0 < step" "2 * step \<le> w - 1" "2 * step \<le> h - 1" "w * h \<le> (2147483647::int)"
  shows "w \<le> 1073741823" "h \<le> 1073741823"
proof -
  have w: "3 \<le> w" and h: "3 \<le> h" using assms by simp_all
  have "3 * w \<le> h * w" using w h by (intro mult_right_mono) auto
  then show "w \<le> 1073741823" using assms(4) by (simp add: mult.commute)
  have "3 * h \<le> w * h" using w h by (intro mult_right_mono) auto
  then show "h \<le> 1073741823" using assms(4) by simp
qed

lemma conv_v_pixel_ok:
  assumes ok: "plane_ok T src"
    and st: "0 \<le> step" "2 * step \<le> getFrameHeight src - 1"
    and sz: "getFrameHeight src \<le> 1073741823"
      "getFrameWidth src * getFrameHeight src \<le> 2147483647"
    and len: "int (length temp) = getFrameWidth src * getFrameHeight src"
    and tmp: "\<forall>x y. 0 \<le> x \<and> x < getFrameWidth src \<and> 0 \<le> y \<and> y < getFrameHeight src \<longrightarrow>
               temp ! nat ((y * getFrameWidth src) + x) = horizontal_pass T src step x y"
    and xy: "0 \<le> x" "x < getFrameWidth src" "0 \<le> y" "y < getFrameHeight src"
  shows "conv_v_pixel T temp (getPtr src) (getFrameWidth src) (getFrameHeight src)
           (getStride src div sizeof T) step nv mv x y
         = store_detail T (detail_value T src nv step x y) mv"
proof -
  define w where "w = getFrameWidth src"
  define h where "h = getFrameHeight src"
  define ss where "ss = getStride src div sizeof T"
  have g: "0 \<le> w" "0 \<le> h" "w \<le> ss" "ss * h \<le> int (length (getPtr src))"
    using ok by (auto simp: plane_ok_def w_def h_def ss_def)
  have m: "\<And>k. k \<in> {- 2, - 1, 0, 1, 2} \<Longrightarrow>
      checked_int (k * step) = Inr (k * step)
      \<and> checked_int (y + (k * step)) = Inr (y + (k * step))
      \<and> mirror_boundary (y + (k * step)) h = Inr (mirror (y + (k * step)) h)
      \<and> 0 \<le> mirror (y + (k * step)) h \<and> mirror (y + (k * step)) h < h"
    using tap_ok[OF st(1) _ xy(3,4)] st(2) sz(1) by (simp add: h_def)
  have b: "0 \<le> x" "x < w" "w * h \<le> int (length temp)"
    using xy len by (auto simp: w_def h_def)
  have sz': "w * h \<le> 2147483647" using sz(2) by (simp add: w_def h_def)
  have t: "temp ! nat ((mirror (y + (k * step)) h * w) + x)
      = horizontal_pass T src step x (mirror (y + (k * step)) h)"
    if "k \<in> {- 2, - 1, 0, 1, 2}" for k
    using tmp m[OF that] xy(1,2) by (simp add: w_def h_def)
  have "weighted5 (\<lambda>k. temp ! nat ((mirror (y + (k * step)) h * w) + x))
      = vertical_pass T src step x y"
    unfolding vertical_pass_def weighted5_def h_def[symmetric]
    using t[of "- 2"] t[of "- 1"] t[of 0] t[of 1] t[of 2] by simp
  then have v: "conv_v_sum temp w h step x y = Inr (vertical_pass T src step x y)"
    using conv_v_sum_ok[where y = y and step = step and height = h and x = x and width = w
        and temp = temp, OF m b sz'] by simp
  from row_start_bounds[OF g(1) g(3) g(4) xy(3)] xy(4)
  have rb: "0 \<le> y * ss" "y * ss + w \<le> int (length (getPtr src))" by (auto simp: h_def)
  have r: "read_row (getPtr src) (y * ss) w x = Inr (pixel_at T src x y)"
    using rb xy(1,2) by (simp add: read_row_def read_at_def pixel_at_def w_def ss_def)
  show ?thesis
    unfolding w_def[symmetric] h_def[symmetric] ss_def[symmetric]
    by (simp add: conv_v_pixel_def v r detail_value_def Let_def)
qed

lemma extract_general:
  assumes ok: "plane_ok T src"
    and dok: "getFrameWidth src \<le> getStride dst div sizeof T"
      "(getStride dst div sizeof T) * getFrameHeight src \<le> int (length (getPtr dst))"
    and r: "1 \<le> radius" "radius \<le> 31"
    and st: "2 * dilation_step radius \<le> getFrameWidth src - 1"
      "2 * dilation_step radius \<le> getFrameHeight src - 1"
    and sz: "getFrameWidth src * getFrameHeight src \<le> 2147483647"
    and nm: "get_neutral T fi = Inr nv" "get_max T fi = Inr mv"
    and store: "\<And>x y. 0 \<le> x \<Longrightarrow> x < getFrameWidth src \<Longrightarrow> 0 \<le> y \<Longrightarrow> y < getFrameHeight src \<Longrightarrow>
       store_detail T (detail_value T src nv (dilation_step radius) x y) mv = Inr (g x y)"
  shows "\<exists>dstp. process_extract_plane T src dst radius fi = Inr (dst\<lparr>getPtr := dstp\<rparr>)
         \<and> length dstp = length (getPtr dst)
         \<and> (\<forall>x y. 0 \<le> x \<and> x < getFrameWidth src \<and> 0 \<le> y \<and> y < getFrameHeight src \<longrightarrow>
               dstp ! nat ((y * (getStride dst div sizeof T)) + x) = g x y)"
proof -
  define w where "w = getFrameWidth src"
  define h where "h = getFrameHeight src"
  define ss where "ss = getStride src div sizeof T"
  define ds where "ds = getStride dst div sizeof T"
  define step where "step = dilation_step radius"
  have s0: "0 \<le> step" using dilation_step_pos[of radius] by (simp add: step_def)
  have g: "0 \<le> w" "0 \<le> h" "w \<le> ss" "ss * h \<le> int (length (getPtr src))"
    using ok by (auto simp: plane_ok_def w_def h_def ss_def)
  note ax = axis_bounds[OF dilation_step_pos st sz]
  from conv_h_ok[OF ok s0 _ ax(1) sz] st(1)
  obtain temp where temp: "conv_h T (getPtr src) (replicate (nat (w * h)) (Fin 0)) w h ss step = Inr temp"
    "int (length temp) = w * h"
    "\<forall>x y. 0 \<le> x \<and> x < getFrameWidth src \<and> 0 \<le> y \<and> y < getFrameHeight src \<longrightarrow>
       temp ! nat ((y * getFrameWidth src) + x) = horizontal_pass T src step x y"
    unfolding w_def h_def ss_def step_def by blast
  have px: "conv_v_pixel T temp (getPtr src) w h ss step nv mv x y = Inr (g x y)"
    if "0 \<le> x" "x < w" "0 \<le> y" "y < h" for x y
    using conv_v_pixel_ok[OF ok s0 _ ax(2) sz _ temp(3), of x y nv mv] st(2) temp(2) that store[of x y]
    by (simp add: w_def h_def ss_def step_def)
  from plane_loop[of w h "\<lambda>x y. conv_v_pixel T temp (getPtr src) w h ss step nv mv x y" g ds
      "getPtr dst", OF px g(1)] dok
  obtain dstp where d: "for_loop (counting h) (\<lambda>y. for_loop (counting w)
        (\<lambda>x d. case conv_v_pixel T temp (getPtr src) w h ss step nv mv x y of Inl e \<Rightarrow> Inl e
               | Inr v \<Rightarrow> write_at d ((y * ds) + x) v)) (getPtr dst) = Inr dstp"
      "length dstp = length (getPtr dst)"
      "\<forall>x y. 0 \<le> x \<and> x < w \<and> 0 \<le> y \<and> y < h \<longrightarrow> dstp ! nat ((y * ds) + x) = g x y"
    unfolding w_def h_def ds_def by blast
  have "conv_v_and_extract T temp (getPtr src) (getPtr dst) w h ss ds step fi = Inr dstp"
    using d(1) by (simp add: conv_v_and_extract_def nm)
  then have "process_extract_plane T src dst radius fi = Inr (dst\<lparr>getPtr := dstp\<rparr>)"
    using temp(1) shl1_step[OF r]
    by (simp add: process_extract_plane_def Let_def w_def h_def ss_def ds_def step_def)
  then show ?thesis using d(2,3) unfolding w_def h_def ds_def by blast
qed

lemma replace_general:
  assumes dok: "plane_ok T dst"
    and bok: "(getStride dst div sizeof T) * getFrameHeight dst \<le> int (length (getPtr base))"
      "(getStride dst div sizeof T) * getFrameHeight dst \<le> int (length (getPtr detail))"
    and nm: "get_neutral T fi = Inr nv" "get_max T fi = Inr mv"
    and store: "\<And>x y. 0 \<le> x \<Longrightarrow> x < getFrameWidth dst \<Longrightarrow> 0 \<le> y \<Longrightarrow> y < getFrameHeight dst \<Longrightarrow>
       store_detail T (replace_value T base detail (getStride dst div sizeof T) nv x y) mv
         = Inr (g x y)"
  shows "\<exists>dstp. ProcessReplacePlane T base detail dst fi = Inr (dst\<lparr>getPtr := dstp\<rparr>)
         \<and> length dstp = length (getPtr dst)
         \<and> (\<forall>x y. 0 \<le> x \<and> x < getFrameWidth dst \<and> 0 \<le> y \<and> y < getFrameHeight dst \<longrightarrow>
               dstp ! nat ((y * (getStride dst div sizeof T)) + x) = g x y)"
proof -
  define w where "w = getFrameWidth dst"
  define h where "h = getFrameHeight dst"
  define st where "st = getStride dst div sizeof T"
  have g: "0 \<le> w" "0 \<le> h" "w \<le> st" "st * h \<le> int (length (getPtr dst))"
    using dok by (auto simp: plane_ok_def w_def h_def st_def)
  have px: "replace_pixel T (getPtr base) (getPtr detail) st nv mv x y = Inr (g x y)"
    if "0 \<le> x" "x < w" "0 \<le> y" "y < h" for x y
  proof -
    have b1: "0 \<le> y * st" "y * st + w \<le> int (length (getPtr base))"
      using row_start_bounds[OF g(1) g(3) _ that(3,4)] bok(1) by (auto simp: st_def h_def)
    have b2: "y * st + w \<le> int (length (getPtr detail))"
      using row_start_bounds[OF g(1) g(3) _ that(3,4)] bok(2) by (auto simp: st_def h_def)
    have r1: "read_at (getPtr base) ((y * st) + x) = Inr (getPtr base ! nat ((y * st) + x))"
      using b1 that by (simp add: read_at_def)
    have r2: "read_at (getPtr detail) ((y * st) + x) = Inr (getPtr detail ! nat ((y * st) + x))"
      using b1 b2 that by (simp add: read_at_def)
    have "store_detail T (replace_value T base detail st nv x y) mv = Inr (g x y)"
      using store[of x y] that by (simp add: w_def h_def st_def)
    then show ?thesis
      by (simp add: replace_pixel_def r1 r2 Let_def replace_value_def)
  qed
  from plane_loop[of w h "\<lambda>x y. replace_pixel T (getPtr base) (getPtr detail) st nv mv x y" g st
      "getPtr dst", OF px g(1) g(3) g(4)]
  obtain dstp where d: "for_loop (counting h) (\<lambda>y. for_loop (counting w)
        (\<lambda>x d. case replace_pixel T (getPtr base) (getPtr detail) st nv mv x y of Inl e \<Rightarrow> Inl e
               | Inr v \<Rightarrow> write_at d ((y * st) + x) v)) (getPtr dst) = Inr dstp"
      "length dstp = length (getPtr dst)"
      "\<forall>x y. 0 \<le> x \<and> x < w \<and> 0 \<le> y \<and> y < h \<longrightarrow> dstp ! nat ((y * st) + x) = g x y"
    by blast
  have "ProcessReplacePlane T base detail dst fi = Inr (dst\<lparr>getPtr := dstp\<rparr>)"
    using d(1)[unfolded w_def h_def st_def] by (simp add: ProcessReplacePlane_def Let_def nm)
  then show ?thesis using d(2,3) unfolding w_def h_def st_def by blast
qed

section \<open>Exactness on integer planes\<close>

lemma fl_int: "\<bar>n\<bar> < 2 ^ 24 \<Longrightarrow> fl (of_int n) = Fin (of_int n)"
proof -
  assume a: "\<bar>n\<bar> < 2 ^ 24"
  have "\<bar>(of_int n :: rat)\<bar> = of_int \<bar>n\<bar>" by simp
  also have "\<dots> < of_int (2 ^ 24)" using a by (simp only: of_int_less_iff)
  also have "\<dots> < 2 ^ 128" by simp
  finally have "\<bar>of_int n * pow2 0\<bar> < 2 ^ 128" by (simp add: pow2_def)
  from fl_exact[OF a _ this] show ?thesis by (simp add: pow2_def)
qed

lemma float_of_int_small: "\<bar>n\<bar> < 2 ^ 24 \<Longrightarrow> float_of_int n = Fin (of_int n)"
  by (simp add: float_of_int_def fl_int)

lemma fadd_int:
  "\<bar>a + b\<bar> < 2 ^ 24 \<Longrightarrow> fadd (Fin (of_int a)) (Fin (of_int b)) = Fin (of_int (a + b))"
  using fl_int[of "a + b"] by (simp add: fadd_def)

lemma fmul_int:
  "\<bar>a * b\<bar> < 2 ^ 24 \<Longrightarrow> 0 \<le> a \<Longrightarrow> 0 \<le> b
     \<Longrightarrow> fmul (Fin (of_int a)) (Fin (of_int b)) = Fin (of_int (a * b))"
  using fl_int[of "a * b"] by (auto simp: fmul_def)

lemma weighted5_unfold:
  "weighted5 g = fadd (fadd (fadd (fadd (fadd (Fin 0)
      (fmul (g (- 2)) (float_of_int 1))) (fmul (g (- 1)) (float_of_int 4)))
      (fmul (g 0) (float_of_int 6))) (fmul (g 1) (float_of_int 4))) (fmul (g 2) (float_of_int 1))"
  by (simp add: weighted5_def KERNEL_def)

lemma weighted5_int:
  assumes g: "\<And>k. k \<in> {- 2, - 1, 0, 1, 2} \<Longrightarrow> g k = Fin (of_int (a k)) \<and> 0 \<le> a k \<and> a k \<le> B"
    and B: "16 * B < 2 ^ 24"
  shows "weighted5 g = Fin (of_int (wsum5 a))"
proof -
  note gs = g[of "- 2"] g[of "- 1"] g[of 0] g[of 1] g[of 2]
  have ge: "g (- 2) = Fin (of_int (a (- 2)))" "g (- 1) = Fin (of_int (a (- 1)))"
    "g 0 = Fin (of_int (a 0))" "g 1 = Fin (of_int (a 1))" "g 2 = Fin (of_int (a 2))"
    using gs by simp_all
  have k: "float_of_int 1 = Fin (of_int 1)" "float_of_int 4 = Fin (of_int 4)"
    "float_of_int 6 = Fin (of_int 6)"
    using float_of_int_small[of 1] float_of_int_small[of 4] float_of_int_small[of 6] by simp_all
  define t1 where "t1 = a (- 2) * 1"
  define t2 where "t2 = a (- 1) * 4"
  define t3 where "t3 = a 0 * 6"
  define t4 where "t4 = a 1 * 4"
  define t5 where "t5 = a 2 * 1"
  have tb: "0 \<le> t1" "0 \<le> t2" "0 \<le> t3" "0 \<le> t4" "0 \<le> t5" "t1 + t2 + t3 + t4 + t5 \<le> 16 * B"
    using gs by (auto simp: t1_def t2_def t3_def t4_def t5_def)
  have m1: "fmul (Fin (of_int (a (- 2)))) (Fin (of_int 1)) = Fin (of_int t1)"
    unfolding t1_def by (rule fmul_int) (use gs B in simp_all)
  have m2: "fmul (Fin (of_int (a (- 1)))) (Fin (of_int 4)) = Fin (of_int t2)"
    unfolding t2_def by (rule fmul_int) (use gs B in simp_all)
  have m3: "fmul (Fin (of_int (a 0))) (Fin (of_int 6)) = Fin (of_int t3)"
    unfolding t3_def by (rule fmul_int) (use gs B in simp_all)
  have m4: "fmul (Fin (of_int (a 1))) (Fin (of_int 4)) = Fin (of_int t4)"
    unfolding t4_def by (rule fmul_int) (use gs B in simp_all)
  have m5: "fmul (Fin (of_int (a 2))) (Fin (of_int 1)) = Fin (of_int t5)"
    unfolding t5_def by (rule fmul_int) (use gs B in simp_all)
  note m = m1 m2 m3 m4 m5
  have z: "(Fin 0 :: f32) = Fin (of_int 0)" by simp
  have s1: "fadd (Fin (of_int 0)) (Fin (of_int t1)) = Fin (of_int (0 + t1))"
    by (rule fadd_int) (use tb B in simp)
  have s2: "fadd (Fin (of_int (0 + t1))) (Fin (of_int t2)) = Fin (of_int (0 + t1 + t2))"
    by (rule fadd_int) (use tb B in simp)
  have s3: "fadd (Fin (of_int (0 + t1 + t2))) (Fin (of_int t3)) = Fin (of_int (0 + t1 + t2 + t3))"
    by (rule fadd_int) (use tb B in simp)
  have s4: "fadd (Fin (of_int (0 + t1 + t2 + t3))) (Fin (of_int t4))
      = Fin (of_int (0 + t1 + t2 + t3 + t4))"
    by (rule fadd_int) (use tb B in simp)
  have s5: "fadd (Fin (of_int (0 + t1 + t2 + t3 + t4))) (Fin (of_int t5))
      = Fin (of_int (0 + t1 + t2 + t3 + t4 + t5))"
    by (rule fadd_int) (use tb B in simp)
  have "weighted5 g = Fin (of_int (0 + t1 + t2 + t3 + t4 + t5))"
    unfolding weighted5_unfold ge k m z s1 s2 s3 s4 s5 ..
  then show ?thesis by (simp add: wsum5_def t1_def t2_def t3_def t4_def t5_def)
qed

lemma wsum5_bounds:
  assumes "\<And>k. k \<in> {- 2, - 1, 0, 1, 2} \<Longrightarrow> 0 \<le> a k \<and> a k \<le> B"
  shows "0 \<le> wsum5 a \<and> wsum5 a \<le> 16 * B"
  using assms[of "- 2"] assms[of "- 1"] assms[of 0] assms[of 1] assms[of 2]
  by (simp add: wsum5_def)

lemma horizontal_int:
  assumes sb: "samples_below T src b" "b \<le> 2 ^ 16"
    and tf: "to_float T = (\<lambda>v. float_of_int (int v))"
    and st: "0 \<le> step" "2 * step \<le> getFrameWidth src - 1"
    and xy: "0 \<le> x" "x < getFrameWidth src" "0 \<le> y" "y < getFrameHeight src"
  shows "horizontal_pass T src step x y = Fin (of_int (hsum T src step x y))
         \<and> 0 \<le> hsum T src step x y \<and> hsum T src step x y \<le> 16 * (b - 1)"
proof -
  define a where "a = (\<lambda>k. int (pixel_at T src (mirror (x + (k * step)) (getFrameWidth src)) y))"
  have ab: "0 \<le> a k \<and> a k \<le> b - 1" if "k \<in> {- 2, - 1, 0, 1, 2}" for k
  proof -
    from mirror_in_range[OF st(1) _ xy(1,2) that] st(2)
    have "0 \<le> mirror (x + (k * step)) (getFrameWidth src)"
      "mirror (x + (k * step)) (getFrameWidth src) < getFrameWidth src" by auto
    then have "a k < b" using sb(1) xy(3,4) unfolding samples_below_def a_def by blast
    then show ?thesis by (simp add: a_def)
  qed
  have g: "to_float T (pixel_at T src (mirror (x + (k * step)) (getFrameWidth src)) y)
      = Fin (of_int (a k)) \<and> 0 \<le> a k \<and> a k \<le> b - 1" if "k \<in> {- 2, - 1, 0, 1, 2}" for k
  proof -
    have "\<bar>a k\<bar> < 2 ^ 24" using ab[OF that] sb(2) by simp
    then show ?thesis using ab[OF that] by (simp add: tf a_def float_of_int_small)
  qed
  have B: "16 * (b - 1) < 2 ^ 24" using sb(2) by simp
  from weighted5_int[of "\<lambda>k. to_float T (pixel_at T src (mirror (x + (k * step)) (getFrameWidth src)) y)"
      a "b - 1", OF g B] wsum5_bounds[of a "b - 1", OF ab]
  show ?thesis by (simp add: horizontal_pass_def hsum_def a_def)
qed

lemma vertical_int:
  assumes sb: "samples_below T src b" "b \<le> 2 ^ 16"
    and tf: "to_float T = (\<lambda>v. float_of_int (int v))"
    and st: "0 \<le> step" "2 * step \<le> getFrameWidth src - 1" "2 * step \<le> getFrameHeight src - 1"
    and xy: "0 \<le> x" "x < getFrameWidth src" "0 \<le> y" "y < getFrameHeight src"
  shows "vertical_pass T src step x y = Fin (of_int (blur_sum T src step x y))
         \<and> 0 \<le> blur_sum T src step x y \<and> blur_sum T src step x y \<le> 256 * (b - 1)"
proof -
  define a where "a = (\<lambda>k. hsum T src step x (mirror (y + (k * step)) (getFrameHeight src)))"
  have g: "horizontal_pass T src step x (mirror (y + (k * step)) (getFrameHeight src))
      = Fin (of_int (a k)) \<and> 0 \<le> a k \<and> a k \<le> 16 * (b - 1)" if "k \<in> {- 2, - 1, 0, 1, 2}" for k
  proof -
    from mirror_in_range[OF st(1) _ xy(3,4) that] st(3)
    have m: "0 \<le> mirror (y + (k * step)) (getFrameHeight src)"
      "mirror (y + (k * step)) (getFrameHeight src) < getFrameHeight src" by auto
    from horizontal_int[OF sb tf st(1,2) xy(1,2) m] show ?thesis by (simp add: a_def)
  qed
  then have ab: "\<And>k. k \<in> {- 2, - 1, 0, 1, 2} \<Longrightarrow> 0 \<le> a k \<and> a k \<le> 16 * (b - 1)" by blast
  have B: "16 * (16 * (b - 1)) < 2 ^ 24" using sb(2) by simp
  from weighted5_int[of "\<lambda>k. horizontal_pass T src step x (mirror (y + (k * step)) (getFrameHeight src))"
      a "16 * (b - 1)", OF g B] wsum5_bounds[of a "16 * (b - 1)", OF ab]
  show ?thesis by (simp add: vertical_pass_def blur_sum_def a_def)
qed

lemma fl_256: "\<bar>n\<bar> < 2 ^ 24 \<Longrightarrow> fl (of_int n / 256) = Fin (of_int n / 256)"
proof -
  assume a: "\<bar>n\<bar> < 2 ^ 24"
  have e: "(of_int n :: rat) * pow2 (- 8) = of_int n / 256" by (simp add: pow2_def)
  have "\<bar>(of_int n :: rat)\<bar> = of_int \<bar>n\<bar>" by simp
  also have "\<dots> < of_int (2 ^ 24)" using a by (simp only: of_int_less_iff)
  finally have "\<bar>(of_int n :: rat)\<bar> < 2 ^ 24" by simp
  then have "\<bar>(of_int n :: rat) / 256\<bar> < 2 ^ 128" by simp
  with fl_exact[OF a, of "- 8"] e show ?thesis by simp
qed

lemma detail_int:
  assumes sb: "samples_below T src b" "b \<le> 2 ^ 16"
    and tf: "to_float T = (\<lambda>v. float_of_int (int v))"
    and st: "0 \<le> step" "2 * step \<le> getFrameWidth src - 1" "2 * step \<le> getFrameHeight src - 1"
    and xy: "0 \<le> x" "x < getFrameWidth src" "0 \<le> y" "y < getFrameHeight src"
  shows "detail_value T src (Fin (of_int N)) step x y
         = fl (of_int (256 * (int (pixel_at T src x y) + N) - blur_sum T src step x y) / 256)"
proof -
  define V where "V = blur_sum T src step x y"
  define s where "s = int (pixel_at T src x y)"
  from vertical_int[OF sb tf st xy]
  have v: "vertical_pass T src step x y = Fin (of_int V)" "0 \<le> V" "V \<le> 256 * (b - 1)"
    by (auto simp: V_def)
  have sbd: "0 \<le> s" "s < b" using sb(1) xy unfolding samples_below_def s_def by auto
  have tfs: "to_float T (pixel_at T src x y) = Fin (of_int s)"
    using sbd sb(2) by (simp add: tf s_def float_of_int_small)
  have d: "fdiv (Fin (of_int V)) (Fin 256) = Fin (of_int V / 256)"
    using fl_256[of V] v(2,3) sb(2) by (simp add: fdiv_def)
  have e1: "(of_int s :: rat) - of_int V / 256 = of_int (256 * s - V) / 256" by simp
  have b1: "\<bar>256 * s - V\<bar> < 2 ^ 24" using sbd v(2,3) sb(2) by simp
  have "fsub (Fin (of_int s)) (Fin (of_int V / 256)) = fl (of_int s - of_int V / 256)"
    by (simp add: fsub_def)
  also have "\<dots> = fl (of_int (256 * s - V) / 256)" by (simp only: e1)
  also have "\<dots> = Fin (of_int (256 * s - V) / 256)" using b1 by (rule fl_256)
  finally have sub: "fsub (Fin (of_int s)) (Fin (of_int V / 256)) = Fin (of_int (256 * s - V) / 256)" .
  have e2: "(of_int (256 * s - V) :: rat) / 256 + of_int N = of_int (256 * (s + N) - V) / 256"
    by simp
  have "fadd (Fin (of_int (256 * s - V) / 256)) (Fin (of_int N))
      = fl (of_int (256 * s - V) / 256 + of_int N)"
    by (simp add: fadd_def)
  also have "\<dots> = fl (of_int (256 * (s + N) - V) / 256)" by (simp only: e2)
  finally have "fadd (Fin (of_int (256 * s - V) / 256)) (Fin (of_int N))
      = fl (of_int (256 * (s + N) - V) / 256)" .
  then show ?thesis
    unfolding detail_value_def Let_def v(1) tfs d sub V_def[symmetric] s_def[symmetric] .
qed

lemma round_even_le_floor: "round_even q \<le> \<lfloor>q\<rfloor> + 1"
  by (simp add: round_even_def Let_def)

lemma fl_big:
  assumes "2 ^ 24 \<le> n" "n < 2 ^ 25"
  shows "\<exists>r. fl (of_int n / 256) = Fin r \<and> 65536 \<le> r"
proof -
  define q :: rat where "q = of_int n / 256"
  have "(of_int (2 ^ 24) :: rat) \<le> of_int n" using assms(1) by (simp only: of_int_le_iff)
  then have ql: "65536 \<le> q" by (simp add: q_def)
  have "(of_int n :: rat) < of_int (2 ^ 25)" using assms(2) by (simp only: of_int_less_iff)
  then have qu: "q < 131072" by (simp add: q_def)
  have q0: "q \<noteq> 0" using ql by simp
  have aq: "\<bar>q\<bar> = q" using ql by simp
  have "pow2 16 \<le> \<bar>q\<bar>" using ql by (simp add: pow2_def aq)
  then have l1: "16 \<le> ilog2 q" by (rule ilog2_ge[OF q0])
  have "\<bar>q\<bar> < pow2 17" using qu by (simp add: pow2_def aq)
  then have l2: "ilog2 q < 17" by (rule ilog2_less[OF q0])
  have il: "ilog2 q = 16" using l1 l2 by simp
  have E: "max (ilog2 q - 23) (- 149) = - 7" by (simp add: il)
  have p7: "pow2 (- 7) = 1 / 128" by (simp add: pow2_def)
  define m where "m = round_even (q / pow2 (- 7))"
  have "(of_int 8388608 :: rat) \<le> q / pow2 (- 7)" using ql by (simp add: p7)
  then have "8388608 \<le> \<lfloor>q / pow2 (- 7)\<rfloor>" by (simp only: le_floor_iff)
  then have ml: "8388608 \<le> m" using round_even_ge_floor[of "q / pow2 (- 7)"]
    unfolding m_def by linarith
  have "q / pow2 (- 7) < of_int 16777216" using qu by (simp add: p7)
  then have "\<lfloor>q / pow2 (- 7)\<rfloor> < 16777216" by (simp only: floor_less_iff)
  then have mu: "m \<le> 16777216" using round_even_le_floor[of "q / pow2 (- 7)"]
    unfolding m_def by linarith
  have "(of_int 8388608 :: rat) \<le> of_int m" using ml by (simp only: of_int_le_iff)
  then have rl: "65536 \<le> (of_int m :: rat) * pow2 (- 7)" by (simp add: p7)
  have "(of_int m :: rat) \<le> of_int 16777216" using mu by (simp only: of_int_le_iff)
  then have "(of_int m :: rat) * pow2 (- 7) \<le> 131072" by (simp add: p7)
  then have ru: "\<bar>(of_int m :: rat) * pow2 (- 7)\<bar> < 2 ^ 128" using rl by simp
  have "fl q = Fin (of_int m * pow2 (- 7))"
    using q0 ru ql by (simp add: fl_def Let_def E m_def[symmetric])
  then show ?thesis using rl unfolding q_def by blast
qed

lemma floor_int_half: "\<lfloor>(of_int i :: rat) + 1 / 2\<rfloor> = i"
  by (rule floor_unique) simp_all

lemma round_half_away_of_int [simp]: "round_half_away (of_int i) = i"
  using floor_int_half[of i] floor_int_half[of "- i"] by (simp add: round_half_away_def)

lemma round_half_away_ge: "of_int k \<le> q \<Longrightarrow> 0 \<le> k \<Longrightarrow> k \<le> round_half_away q"
proof -
  assume a: "of_int k \<le> q" "0 \<le> k"
  then have "0 \<le> q" by (metis of_int_0_le_iff order_trans)
  moreover have "of_int k \<le> q + 1 / 2" using a(1) by simp
  ultimately show ?thesis by (simp only: round_half_away_def le_floor_iff if_True)
qed

lemma trunc_of_int [simp]: "trunc (of_int i) = i"
  by (simp add: trunc_def)

lemma uint_t_simps [simp]:
  "integral (uint_t W) = True" "sizeof (uint_t W) = int W div 8"
  "to_float (uint_t W) = (\<lambda>v. float_of_int (int v))" "from_float (uint_t W) = cast_uint W"
  by (simp_all add: uint_t_def)

lemma float_t_simps [simp]:
  "integral float_t = False" "sizeof float_t = 4"
  "to_float float_t = (\<lambda>v. v)" "from_float float_t = Inr"
  by (simp_all add: float_t_def)

lemma store_quantized:
  assumes r: "quantize bits q = quantize bits (of_int (round_half_away d))"
    and bits: "0 \<le> bits" "bits \<le> int W"
  shows "store_detail (uint_t W) (Fin d) (Fin (2 ^ nat bits - 1)) = Inr (nat (quantize bits q))"
proof -
  define M :: int where "M = 2 ^ nat bits - 1"
  define i where "i = round_half_away d"
  have M0: "0 \<le> M" by (simp add: M_def)
  have Mr: "(2 ^ nat bits - 1 :: rat) = of_int M" by (simp add: M_def)
  have "quantize bits q = quantize bits (of_int i)" using r by (simp only: i_def)
  also have "\<dots> = (if i < 0 then 0 else if M < i then M else i)"
    by (simp add: quantize_def Let_def M_def)
  finally have qi: "quantize bits q = (if i < 0 then 0 else if M < i then M else i)" .
  have c: "clamp (fround d) 0 (of_int M) = of_int (quantize bits q)"
    unfolding qi using M0 by (auto simp: clamp_def fround_def i_def[symmetric])
  have rng: "0 \<le> quantize bits q" "quantize bits q \<le> M" unfolding qi using M0 by auto
  have "(2::int) ^ nat bits \<le> 2 ^ W" using bits by (intro power_increasing) auto
  moreover have "quantize bits q < 2 ^ nat bits" using rng(2) by (simp add: M_def)
  ultimately have "quantize bits q < 2 ^ W" by linarith
  then show ?thesis
    using rng(1) by (simp add: store_detail_def Mr c cast_uint_def)
qed

lemma store_int:
  assumes n: "- (2 ^ 24) < n" "n < 2 ^ 25"
    and bits: "0 \<le> bits" "bits \<le> 16" "bits \<le> int W"
  shows "store_detail (uint_t W) (fl (of_int n / 256)) (Fin (2 ^ nat bits - 1))
         = Inr (nat (quantize bits (of_int n / 256)))"
proof (cases "n < 2 ^ 24")
  case True
  then have "\<bar>n\<bar> < 2 ^ 24" using n(1) by simp
  then have "fl (of_int n / 256) = Fin (of_int n / 256)" by (rule fl_256)
  moreover have "quantize bits (of_int n / 256)
      = quantize bits (of_int (round_half_away (of_int n / 256)))"
    by (simp add: quantize_def)
  ultimately show ?thesis using store_quantized[OF _ bits(1,3)] by simp
next
  case False
  then have nl: "2 ^ 24 \<le> n" by simp
  from fl_big[OF nl n(2)] obtain r where r: "fl (of_int n / 256) = Fin r" "65536 \<le> r" by blast
  have "(of_int (2 ^ 24) :: rat) \<le> of_int n" using nl by (simp only: of_int_le_iff)
  then have q: "(of_int 65536 :: rat) \<le> of_int n / 256" by simp
  have M: "(2::int) ^ nat bits - 1 < 65536"
  proof -
    have "(2::int) ^ nat bits \<le> 2 ^ 16" using bits by (intro power_increasing) auto
    then show ?thesis by simp
  qed
  have i1: "65536 \<le> round_half_away (of_int n / 256)" using round_half_away_ge[OF q] by simp
  have i2: "65536 \<le> round_half_away r" using round_half_away_ge[of 65536 r] r(2) by simp
  have "quantize bits (of_int n / 256) = quantize bits (of_int (round_half_away r))"
    using i1 i2 M by (simp add: quantize_def Let_def)
  from store_quantized[OF this bits(1,3)] r(1) show ?thesis by simp
qed

lemma add_pow2_not_neg: "0 \<le> (k::int) \<Longrightarrow> \<not> k + 2 ^ n < 0"
  using zero_le_power[of "2::int" n] by linarith

lemma get_neutral_uint:
  "8 \<le> bitsPerSample fi \<Longrightarrow> bitsPerSample fi \<le> 16 \<Longrightarrow>
   get_neutral (uint_t W) fi = Inr (Fin (of_int (2 ^ nat (bitsPerSample fi - 1))))"
proof -
  assume a: "8 \<le> bitsPerSample fi" "bitsPerSample fi \<le> 16"
  have "(2::int) ^ nat (bitsPerSample fi - 1) \<le> 2 ^ 15" using a by (intro power_increasing) auto
  then have "\<bar>(2::int) ^ nat (bitsPerSample fi - 1)\<bar> < 2 ^ 24" by simp
  from float_of_int_small[OF this] a show ?thesis by (simp add: get_neutral_def shl1_def)
qed

lemma get_max_uint:
  "8 \<le> bitsPerSample fi \<Longrightarrow> bitsPerSample fi \<le> 16 \<Longrightarrow>
   get_max (uint_t W) fi = Inr (Fin (2 ^ nat (bitsPerSample fi) - 1))"
proof -
  assume a: "8 \<le> bitsPerSample fi" "bitsPerSample fi \<le> 16"
  have "(2::int) ^ nat (bitsPerSample fi) \<le> 2 ^ 16" using a by (intro power_increasing) auto
  moreover have p: "(0::int) < 2 ^ nat (bitsPerSample fi)" by simp
  ultimately have "\<bar>(2::int) ^ nat (bitsPerSample fi) - 1\<bar> < 2 ^ 24" by simp
  from float_of_int_small[OF this] a show ?thesis
    by (simp add: get_max_def shl1_def add_pow2_not_neg)
qed

section \<open>Closed forms of the two operations\<close>

lemma round_even_le_ceiling: "round_even q \<le> \<lceil>q\<rceil>"
proof (cases "q = of_int \<lfloor>q\<rfloor>")
  case True
  then have "round_even q = \<lfloor>q\<rfloor>" by (metis round_even_of_int)
  then show ?thesis by (simp add: floor_le_ceiling)
next
  case False
  then have "\<lceil>q\<rceil> = \<lfloor>q\<rfloor> + 1" by (simp add: ceiling_altdef)
  then show ?thesis using round_even_le_floor[of q] by simp
qed

lemma pow2_1: "pow2 1 = 2"
  by (simp add: pow2_def)

lemma fl_idem:
  assumes "fl q = Fin r"
  shows "fl r = Fin r"
proof (cases "q = 0")
  case True
  then show ?thesis using assms by (auto simp: fl_def)
next
  case False
  define E where "E = max (ilog2 q - 23) (- 149)"
  define m where "m = round_even (q / pow2 E)"
  have r: "r = of_int m * pow2 E" "\<bar>r\<bar> < 2 ^ 128"
    using assms False by (auto simp: fl_def Let_def E_def[symmetric] m_def[symmetric] split: if_splits)
  have E1: "- 149 \<le> E" and E2: "ilog2 q + 1 - E \<le> 24" by (auto simp: E_def)
  define z where "z = q / pow2 E"
  have "\<bar>z\<bar> = \<bar>q\<bar> / pow2 E" by (simp add: z_def)
  also have "\<dots> < pow2 (ilog2 q + 1) / pow2 E"
    using ilog2_upper[OF False] by (simp add: divide_strict_right_mono)
  also have "\<dots> = pow2 (ilog2 q + 1 - E)"
  proof -
    have "pow2 (ilog2 q + 1) = pow2 (ilog2 q + 1 - E) * pow2 E" by (simp add: pow2_add[symmetric])
    then show ?thesis by simp
  qed
  also have "\<dots> \<le> pow2 24" using E2 by (simp add: pow2_le_iff)
  finally have ab: "\<bar>z\<bar> < of_int (2 ^ 24)" by (simp add: pow2_def)
  have "z < of_int (2 ^ 24)" "of_int (- (2 ^ 24)) < z" using ab by linarith+
  then have "\<lceil>z\<rceil> \<le> 2 ^ 24" "- (2 ^ 24) \<le> \<lfloor>z\<rfloor>"
    by (simp_all only: ceiling_le_iff le_floor_iff less_imp_le)
  then have mb: "m \<le> 2 ^ 24" "- (2 ^ 24) \<le> m"
    using round_even_le_ceiling[of z] round_even_ge_floor[of z]
    unfolding m_def z_def by linarith+
  consider "\<bar>m\<bar> < 2 ^ 24" | "m = 2 ^ 24" | "m = - (2 ^ 24)" using mb by linarith
  then show ?thesis
  proof cases
    case 1
    from fl_exact[OF 1 E1] r show ?thesis by simp
  next
    case 2
    have e: "(of_int (2 ^ 23) :: rat) * pow2 (E + 1) = of_int m * pow2 E"
      by (simp add: 2 pow2_add pow2_1)
    have "\<bar>(2::int) ^ 23\<bar> < 2 ^ 24" by simp
    from fl_exact[OF this, of "E + 1"] E1 r show ?thesis unfolding e by simp
  next
    case 3
    have e: "(of_int (- (2 ^ 23)) :: rat) * pow2 (E + 1) = of_int m * pow2 E"
      by (simp add: 3 pow2_add pow2_1)
    have "\<bar>- ((2::int) ^ 23)\<bar> < 2 ^ 24" by simp
    from fl_exact[OF this, of "E + 1"] E1 r show ?thesis unfolding e by simp
  qed
qed

lemma fsub_zero: "fsub (fadd a b) (Fin 0) = fadd a b"
proof (cases "fadd a b")
  case NonFinite
  then show ?thesis by (simp add: fsub_def)
next
  case NegZero
  then show ?thesis by (simp add: fsub_def)
next
  case (Fin r)
  then obtain q where "fl q = Fin r" by (auto simp: fadd_def split: f32.splits)
  from fl_idem[OF this] Fin show ?thesis by (simp add: fsub_def)
qed

lemma neutral_bounds:
  assumes "8 \<le> bits" "bits \<le> 16"
  shows "128 \<le> (2::int) ^ nat (bits - 1)" "(2::int) ^ nat (bits - 1) \<le> 32768"
proof -
  have "(2::int) ^ 7 \<le> 2 ^ nat (bits - 1)" using assms by (intro power_increasing) auto
  then show "128 \<le> (2::int) ^ nat (bits - 1)" by simp
  have "(2::int) ^ nat (bits - 1) \<le> 2 ^ 15" using assms by (intro power_increasing) auto
  then show "(2::int) ^ nat (bits - 1) \<le> 32768" by simp
qed

lemma store_extract_int:
  assumes bits: "8 \<le> bitsPerSample fi" "bitsPerSample fi \<le> 16" "bitsPerSample fi \<le> int W"
    and sb: "samples_below (uint_t W) src (2 ^ 16)"
    and st: "0 \<le> step" "2 * step \<le> getFrameWidth src - 1" "2 * step \<le> getFrameHeight src - 1"
    and xy: "0 \<le> x" "x < getFrameWidth src" "0 \<le> y" "y < getFrameHeight src"
  shows "store_detail (uint_t W)
           (detail_value (uint_t W) src (Fin (of_int (2 ^ nat (bitsPerSample fi - 1)))) step x y)
           (Fin (2 ^ nat (bitsPerSample fi) - 1))
         = Inr (Extract_int (uint_t W) fi src step x y)"
    and "detail_value (uint_t W) src (Fin (of_int (2 ^ nat (bitsPerSample fi - 1)))) step x y
         \<noteq> NegZero"
proof -
  define T where "T = uint_t W"
  define N :: int where "N = 2 ^ nat (bitsPerSample fi - 1)"
  define V where "V = blur_sum T src step x y"
  define s where "s = int (pixel_at T src x y)"
  have tf: "to_float T = (\<lambda>v. float_of_int (int v))" by (simp add: T_def)
  have Nb: "128 \<le> N" "N \<le> 32768" using neutral_bounds[OF bits(1,2)] by (simp_all add: N_def)
  have sb': "samples_below T src (2 ^ 16)" "(2::int) ^ 16 \<le> 2 ^ 16" using sb by (simp_all add: T_def)
  from vertical_int[OF sb' tf st xy]
  have v: "0 \<le> V" "V \<le> 256 * (2 ^ 16 - 1)" by (auto simp: V_def)
  have sbd: "0 \<le> s" "s < 2 ^ 16" using sb'(1) xy unfolding samples_below_def s_def by auto
  from detail_int[OF sb' tf st xy, of N]
  have d: "detail_value T src (Fin (of_int N)) step x y = fl (of_int (256 * (s + N) - V) / 256)"
    by (simp add: V_def s_def)
  have n: "- (2 ^ 24) < 256 * (s + N) - V" "256 * (s + N) - V < 2 ^ 25"
    using v sbd Nb by simp_all
  have "0 \<le> bitsPerSample fi" using bits by simp
  note st1 = store_int[OF n this bits(2,3), folded T_def]
  have e: "(of_int (256 * (s + N) - V) :: rat) / 256
      = of_int s - of_int V / 256 + 2 ^ nat (bitsPerSample fi - 1)"
    by (simp add: N_def)
  show "store_detail (uint_t W)
           (detail_value (uint_t W) src (Fin (of_int (2 ^ nat (bitsPerSample fi - 1)))) step x y)
           (Fin (2 ^ nat (bitsPerSample fi) - 1))
         = Inr (Extract_int (uint_t W) fi src step x y)"
    unfolding T_def[symmetric] N_def[symmetric] d Extract_int_def V_def[symmetric]
      s_def[symmetric] e[symmetric] by (rule st1)
  have "fl (of_int (256 * (s + N) - V) / 256) \<noteq> NegZero"
  proof (cases "\<bar>256 * (s + N) - V\<bar> < 2 ^ 24")
    case True
    from fl_256[OF this] show ?thesis by simp
  next
    case False
    then have "2 ^ 24 \<le> 256 * (s + N) - V" using n by simp
    from fl_big[OF this n(2)] show ?thesis by auto
  qed
  then show "detail_value (uint_t W) src (Fin (of_int (2 ^ nat (bitsPerSample fi - 1)))) step x y
         \<noteq> NegZero"
    unfolding T_def[symmetric] N_def[symmetric] d .
qed

lemma extract_int:
  assumes ok: "plane_ok (uint_t W) src"
    and dok: "getFrameWidth src \<le> getStride dst div sizeof (uint_t W)"
      "(getStride dst div sizeof (uint_t W)) * getFrameHeight src \<le> int (length (getPtr dst))"
    and r: "1 \<le> radius" "radius \<le> 31"
    and st: "2 * dilation_step radius \<le> getFrameWidth src - 1"
      "2 * dilation_step radius \<le> getFrameHeight src - 1"
    and sz: "getFrameWidth src * getFrameHeight src \<le> 2147483647"
    and bits: "8 \<le> bitsPerSample fi" "bitsPerSample fi \<le> 16" "bitsPerSample fi \<le> int W"
    and sb: "samples_below (uint_t W) src (2 ^ 16)"
  shows "\<exists>dstp. process_extract_plane (uint_t W) src dst radius fi = Inr (dst\<lparr>getPtr := dstp\<rparr>)
         \<and> length dstp = length (getPtr dst)
         \<and> (\<forall>x y. 0 \<le> x \<and> x < getFrameWidth src \<and> 0 \<le> y \<and> y < getFrameHeight src \<longrightarrow>
               dstp ! nat ((y * (getStride dst div sizeof (uint_t W))) + x)
                 = Extract_int (uint_t W) fi src (dilation_step radius) x y)"
proof -
  have s0: "0 \<le> dilation_step radius" using dilation_step_pos[of radius] by simp
  have nm: "get_neutral (uint_t W) fi = Inr (Fin (of_int (2 ^ nat (bitsPerSample fi - 1))))"
    "get_max (uint_t W) fi = Inr (Fin (2 ^ nat (bitsPerSample fi) - 1))"
    using get_neutral_uint[OF bits(1,2)] get_max_uint[OF bits(1,2)] by simp_all
  note store = store_extract_int(1)[OF bits sb s0 st]
  from extract_general[of "uint_t W" src dst radius fi
      "Fin (of_int (2 ^ nat (bitsPerSample fi - 1)))" "Fin (2 ^ nat (bitsPerSample fi) - 1)"
      "\<lambda>x y. Extract_int (uint_t W) fi src (dilation_step radius) x y", OF ok dok r st sz nm store]
  show ?thesis by blast
qed

lemma store_float [simp]: "store_detail float_t v m = Inr v"
  by (simp add: store_detail_def)

lemma get_float [simp]: "get_neutral float_t fi = Inr (Fin 0)" "get_max float_t fi = Inr (Fin 1)"
  by (simp_all add: get_neutral_def get_max_def)

lemma extract_float:
  assumes ok: "plane_ok float_t src"
    and dok: "getFrameWidth src \<le> getStride dst div sizeof float_t"
      "(getStride dst div sizeof float_t) * getFrameHeight src \<le> int (length (getPtr dst))"
    and r: "1 \<le> radius" "radius \<le> 31"
    and st: "2 * dilation_step radius \<le> getFrameWidth src - 1"
      "2 * dilation_step radius \<le> getFrameHeight src - 1"
    and sz: "getFrameWidth src * getFrameHeight src \<le> 2147483647"
  shows "\<exists>dstp. process_extract_plane float_t src dst radius fi = Inr (dst\<lparr>getPtr := dstp\<rparr>)
         \<and> length dstp = length (getPtr dst)
         \<and> (\<forall>x y. 0 \<le> x \<and> x < getFrameWidth src \<and> 0 \<le> y \<and> y < getFrameHeight src \<longrightarrow>
               dstp ! nat ((y * (getStride dst div sizeof float_t)) + x)
                 = detail_value float_t src (Fin 0) (dilation_step radius) x y)"
  using extract_general[of float_t src dst radius fi "Fin 0" "Fin 1"
      "\<lambda>x y. detail_value float_t src (Fin 0) (dilation_step radius) x y", OF ok dok r st sz]
  by simp

lemma replace_int:
  assumes dok: "plane_ok (uint_t W) dst"
    and bok: "(getStride dst div sizeof (uint_t W)) * getFrameHeight dst \<le> int (length (getPtr base))"
      "(getStride dst div sizeof (uint_t W)) * getFrameHeight dst \<le> int (length (getPtr detail))"
    and bits: "8 \<le> bitsPerSample fi" "bitsPerSample fi \<le> 16" "bitsPerSample fi \<le> int W"
    and sb: "\<And>x y. 0 \<le> x \<Longrightarrow> x < getFrameWidth dst \<Longrightarrow> 0 \<le> y \<Longrightarrow> y < getFrameHeight dst \<Longrightarrow>
       getPtr base ! nat ((y * (getStride dst div sizeof (uint_t W))) + x) < 2 ^ 16
       \<and> getPtr detail ! nat ((y * (getStride dst div sizeof (uint_t W))) + x) < 2 ^ 16"
  shows "\<exists>dstp. ProcessReplacePlane (uint_t W) base detail dst fi = Inr (dst\<lparr>getPtr := dstp\<rparr>)
         \<and> length dstp = length (getPtr dst)
         \<and> (\<forall>x y. 0 \<le> x \<and> x < getFrameWidth dst \<and> 0 \<le> y \<and> y < getFrameHeight dst \<longrightarrow>
               dstp ! nat ((y * (getStride dst div sizeof (uint_t W))) + x)
                 = Replace_int (bitsPerSample fi)
                     (getPtr base ! nat ((y * (getStride dst div sizeof (uint_t W))) + x))
                     (getPtr detail ! nat ((y * (getStride dst div sizeof (uint_t W))) + x)))"
proof -
  define T where "T = uint_t W"
  define stv where "stv = getStride dst div sizeof T"
  define N :: int where "N = 2 ^ nat (bitsPerSample fi - 1)"
  have nm: "get_neutral T fi = Inr (Fin (of_int N))"
    "get_max T fi = Inr (Fin (2 ^ nat (bitsPerSample fi) - 1))"
    using get_neutral_uint[OF bits(1,2)] get_max_uint[OF bits(1,2)] by (simp_all add: T_def N_def)
  have Nb: "128 \<le> N" "N \<le> 32768"
  proof -
    have "(2::int) ^ 7 \<le> 2 ^ nat (bitsPerSample fi - 1)" using bits by (intro power_increasing) auto
    then show "128 \<le> N" by (simp add: N_def)
    have "(2::int) ^ nat (bitsPerSample fi - 1) \<le> 2 ^ 15" using bits by (intro power_increasing) auto
    then show "N \<le> 32768" by (simp add: N_def)
  qed
  have store: "store_detail T (replace_value T base detail stv (Fin (of_int N)) x y)
        (Fin (2 ^ nat (bitsPerSample fi) - 1))
      = Inr (Replace_int (bitsPerSample fi) (getPtr base ! nat ((y * stv) + x))
               (getPtr detail ! nat ((y * stv) + x)))"
    if xy: "0 \<le> x" "x < getFrameWidth dst" "0 \<le> y" "y < getFrameHeight dst" for x y
  proof -
    define b where "b = int (getPtr base ! nat ((y * stv) + x))"
    define d where "d = int (getPtr detail ! nat ((y * stv) + x))"
    have bd: "0 \<le> b" "b < 2 ^ 16" "0 \<le> d" "d < 2 ^ 16"
      using sb[OF xy] by (simp_all add: b_def d_def stv_def T_def)
    have tb: "to_float T (getPtr base ! nat ((y * stv) + x)) = Fin (of_int b)"
      using bd by (simp add: T_def b_def float_of_int_small)
    have td: "to_float T (getPtr detail ! nat ((y * stv) + x)) = Fin (of_int d)"
      using bd by (simp add: T_def d_def float_of_int_small)
    have a: "fadd (Fin (of_int b)) (Fin (of_int d)) = Fin (of_int (b + d))"
      by (rule fadd_int) (use bd in simp)
    have "fsub (Fin (of_int (b + d))) (Fin (of_int N)) = fl (of_int (b + d - N))"
      by (simp add: fsub_def)
    also have "\<dots> = Fin (of_int (b + d - N))" by (rule fl_int) (use bd Nb in simp)
    finally have v: "replace_value T base detail stv (Fin (of_int N)) x y = Fin (of_int (b + d - N))"
      unfolding replace_value_def tb td a .
    have q: "quantize (bitsPerSample fi) (of_int (b + d - N))
        = quantize (bitsPerSample fi) (of_int (round_half_away (of_int (b + d - N))))"
      by (simp only: round_half_away_of_int)
    have "0 \<le> bitsPerSample fi" using bits by simp
    note st1 = store_quantized[OF q this bits(3), folded T_def]
    have e: "(of_int (b + d - N) :: rat) = of_int b + of_int d - 2 ^ nat (bitsPerSample fi - 1)"
      by (simp add: N_def)
    show ?thesis
      unfolding v Replace_int_def b_def[symmetric] d_def[symmetric] e[symmetric] by (rule st1)
  qed
  from replace_general[of T dst base detail fi "Fin (of_int N)" "Fin (2 ^ nat (bitsPerSample fi) - 1)"
      "\<lambda>x y. Replace_int (bitsPerSample fi) (getPtr base ! nat ((y * stv) + x))
               (getPtr detail ! nat ((y * stv) + x))", OF _ _ _ nm] dok bok store
  show ?thesis unfolding T_def stv_def by blast
qed

lemma replace_float:
  assumes dok: "plane_ok float_t dst"
    and bok: "(getStride dst div sizeof float_t) * getFrameHeight dst \<le> int (length (getPtr base))"
      "(getStride dst div sizeof float_t) * getFrameHeight dst \<le> int (length (getPtr detail))"
  shows "\<exists>dstp. ProcessReplacePlane float_t base detail dst fi = Inr (dst\<lparr>getPtr := dstp\<rparr>)
         \<and> length dstp = length (getPtr dst)
         \<and> (\<forall>x y. 0 \<le> x \<and> x < getFrameWidth dst \<and> 0 \<le> y \<and> y < getFrameHeight dst \<longrightarrow>
               dstp ! nat ((y * (getStride dst div sizeof float_t)) + x)
                 = fadd (getPtr base ! nat ((y * (getStride dst div sizeof float_t)) + x))
                        (getPtr detail ! nat ((y * (getStride dst div sizeof float_t)) + x)))"
  using replace_general[of float_t dst base detail fi "Fin 0" "Fin 1"
      "\<lambda>x y. fadd (getPtr base ! nat ((y * (getStride dst div sizeof float_t)) + x))
                    (getPtr detail ! nat ((y * (getStride dst div sizeof float_t)) + x))", OF dok bok]
  by (simp add: replace_value_def fsub_zero)

section \<open>The boundary resolver\<close>

lemma counting_Cons: "1 \<le> n \<Longrightarrow> counting n = 0 # map int [1..<nat n]"
  by (simp add: counting_def upt_conv_Cons)

lemma dilation_step_le:
  assumes "1 \<le> radius" "radius \<le> r"
  shows "dilation_step radius \<le> 2 ^ nat (r - 1)"
proof -
  have "nat (radius - 1) \<le> nat (r - 1)" using assms by simp
  then have "(2::int) ^ nat (radius - 1) \<le> 2 ^ nat (r - 1)"
    by (rule power_increasing) simp
  then show ?thesis by (simp add: dilation_step_def)
qed

lemma extract_first_tap:
  assumes "1 \<le> getFrameWidth src" "1 \<le> getFrameHeight src" "1 \<le> radius" "radius \<le> 31"
    and "mirror_boundary (- 2 * dilation_step radius) (getFrameWidth src) = Inl e
       \<or> (\<exists>v. mirror_boundary (- 2 * dilation_step radius) (getFrameWidth src) = Inr v
              \<and> getFrameWidth src \<le> v \<and> e = OutOfRange)"
  shows "process_extract_plane T src dst radius fi = Inl e"
proof -
  define w where "w = getFrameWidth src"
  define step where "step = dilation_step radius"
  have "step \<le> 2 ^ nat (31 - 1)" unfolding step_def by (rule dilation_step_le[OF assms(3,4)])
  then have s: "0 < step" "step \<le> 1073741824" using dilation_step_pos[of radius]
    by (simp_all add: step_def)
  have c: "checked_int (- 2 * step) = Inr (- 2 * step)"
    "checked_int (0 + (- 2 * step)) = Inr (- 2 * step)"
    using s by (simp_all add: checked_int_def)
  have "(case mirror_boundary (- 2 * step) w of Inl e \<Rightarrow> Inl e
         | Inr offset_idx \<Rightarrow>
             (case read_row (getPtr src) (0 * ss) w offset_idx of Inl e \<Rightarrow> Inl e
              | Inr v \<Rightarrow> F v)) = Inl e" for ss and F :: "'a \<Rightarrow> error + f32"
    using assms(5) unfolding w_def[symmetric] step_def[symmetric]
    by (auto simp: read_row_def)
  then have "conv_h_sum T (getPtr src) w ss step 0 0 = Inl e" for ss
    unfolding conv_h_sum_def using c by simp
  then have "conv_h T (getPtr src) buf w (getFrameHeight src) ss step = Inl e" for buf ss
    unfolding conv_h_def using assms(1,2)
    by (simp add: counting_Cons w_def[symmetric] checked_int_def)
  then show ?thesis
    using shl1_step[OF assms(3,4)]
    by (simp add: process_extract_plane_def Let_def w_def[symmetric] step_def[symmetric])
qed

lemma extract_out_of_range:
  assumes "1 \<le> getFrameWidth src" "1 \<le> getFrameHeight src" "1 \<le> radius" "radius \<le> 30"
    and "getFrameWidth src \<le> 2 * dilation_step radius"
  shows "process_extract_plane T src dst radius fi = Inl OutOfRange"
proof -
  have "dilation_step radius \<le> 2 ^ nat (30 - 1)" by (rule dilation_step_le[OF assms(3,4)])
  then have s: "0 < dilation_step radius" "dilation_step radius \<le> 536870912"
    using dilation_step_pos[of radius] by simp_all
  have "mirror_boundary (- 2 * dilation_step radius) (getFrameWidth src)
      = Inr (2 * dilation_step radius)"
    using s by (simp add: mirror_boundary_def checked_int_def)
  then show ?thesis
    using extract_first_tap[OF assms(1-3), of OutOfRange T dst fi] assms(4,5) by simp
qed

lemma extract_overflow:
  assumes "1 \<le> getFrameWidth src" "1 \<le> getFrameHeight src"
  shows "process_extract_plane T src dst 31 fi = Inl SignedOverflow"
proof -
  have "mirror_boundary (- 2 * dilation_step 31) (getFrameWidth src) = Inl SignedOverflow"
    by (simp add: mirror_boundary_def checked_int_def dilation_step_def)
  then show ?thesis
    using extract_first_tap[OF assms, of 31 SignedOverflow T dst fi] by simp
qed

lemma ExtractCreate_accepts:
  assumes "1 \<le> radius" "radius \<le> 2147483647" "isConstantVideoFormat vi" "accepted_format (format vi)"
  shows "ExtractCreate vi (Some radius) = Inr \<lparr>ATWT_vi = vi, ATWT_radius = radius\<rparr>"
  using assms by (auto simp: ExtractCreate_def int64ToIntS_def accepted_format_def Let_def)

lemma mirror_boundary_value: "mirror_boundary pos n = Inr v \<Longrightarrow> v = mirror pos n"
  by (auto simp: mirror_boundary_def mirror_def checked_int_def split: if_splits sum.splits)

text \<open>
  \<^bold>\<open>C6\<close> (as amended). For every coordinate \<open>pos\<close> of type \<^verbatim>\<open>int\<close> other than \<open>-2^31\<close> and
  every axis size \<open>n\<close> with \<open>1 \<le> n < 2^30\<close> the resolver returns \<open>- pos\<close> if \<open>pos < 0\<close>,
  otherwise \<open>2 * n - 2 - pos\<close> if \<open>pos \<ge> n\<close>, and otherwise \<open>pos\<close> unchanged; the result is
  a valid index of \<open>[0, n)\<close> exactly when \<open>- n < pos \<le> 2 * n - 2\<close>: outside that window one
  reflection is not enough. At \<open>pos = -2^31\<close> the negation overflows, and for \<open>n \<ge> 2^30\<close>
  and \<open>pos \<ge> n\<close> the doubling of \<open>n\<close> overflows.
\<close>

theorem mirror_boundary_reflection:
  "(- 2147483648 < pos \<and> pos \<le> 2147483647 \<and> 1 \<le> n \<and> n \<le> 1073741823 \<longrightarrow>
      mirror_boundary pos n
        = Inr (if pos < 0 then - pos else if n \<le> pos then 2 * n - 2 - pos else pos)
      \<and> ((\<exists>v. mirror_boundary pos n = Inr v \<and> 0 \<le> v \<and> v < n)
            \<longleftrightarrow> (- n < pos \<and> pos \<le> 2 * n - 2)))
   \<and> mirror_boundary (- 2147483648) n = Inl SignedOverflow
   \<and> (1073741824 \<le> n \<and> n \<le> pos \<longrightarrow> mirror_boundary pos n = Inl SignedOverflow)"
proof (intro conjI impI)
  assume a: "- 2147483648 < pos \<and> pos \<le> 2147483647 \<and> 1 \<le> n \<and> n \<le> 1073741823"
  then show v: "mirror_boundary pos n
      = Inr (if pos < 0 then - pos else if n \<le> pos then 2 * n - 2 - pos else pos)"
    by (simp add: mirror_boundary_def checked_int_def)
  show "(\<exists>v. mirror_boundary pos n = Inr v \<and> 0 \<le> v \<and> v < n)
      \<longleftrightarrow> (- n < pos \<and> pos \<le> 2 * n - 2)"
    unfolding v using a by auto
next
  show "mirror_boundary (- 2147483648) n = Inl SignedOverflow"
    by (simp add: mirror_boundary_def checked_int_def)
next
  assume "1073741824 \<le> n \<and> n \<le> pos"
  then show "mirror_boundary pos n = Inl SignedOverflow"
    by (simp add: mirror_boundary_def checked_int_def)
qed

theorem mirror_boundary_reflection_witness:
  "(- 2147483648 < (6::int) \<and> (6::int) \<le> 2147483647 \<and> (1::int) \<le> 5 \<and> (5::int) \<le> 1073741823)
   \<and> mirror_boundary 6 5 = Inr 2 \<and> mirror_boundary (- 2) 5 = Inr 2
   \<and> mirror_boundary 3 5 = Inr 3
   \<and> (\<exists>v. mirror_boundary 6 5 = Inr v \<and> 0 \<le> v \<and> v < 5)
   \<and> mirror_boundary 1073741824 1073741824 = Inl SignedOverflow"
  using mirror_boundary_reflection[of 6 5] mirror_boundary_reflection[of "- 2" 5]
    mirror_boundary_reflection[of 3 5] mirror_boundary_reflection[of 1073741824 1073741824]
  by simp

theorem mirror_boundary_counterexample:
  "\<not> (\<exists>v. mirror_boundary (- 4) 4 = Inr v \<and> 0 \<le> v \<and> v < 4)"
  by (simp add: mirror_boundary_def checked_int_def)

text \<open>
  \<^bold>\<open>C7\<close> (as amended). For radius 1 (step 1) and an axis of size 5, the resolver maps the
  five tap positions around \<open>x = 0\<close> to the indices 2, 1, 0, 1, 2 and those around the last
  column \<open>x = 4\<close> to 2, 3, 4, 3, 2; on every plane of width 5 the horizontal sums of the first
  and of the last column are therefore computed from the samples of the row at these
  columns only.
\<close>

theorem boundary_taps_width_5:
  "map (\<lambda>k. mirror_boundary (0 + (k * dilation_step 1)) 5) [- 2, - 1, 0, 1, 2]
     = map Inr [2, 1, 0, 1, 2]
   \<and> map (\<lambda>k. mirror_boundary (4 + (k * dilation_step 1)) 5) [- 2, - 1, 0, 1, 2]
     = map Inr [2, 3, 4, 3, 2]
   \<and> (plane_ok T src \<and> getFrameWidth src = 5 \<and> 0 \<le> y \<and> y < getFrameHeight src \<longrightarrow>
        conv_h_sum T (getPtr src) 5 (getStride src div sizeof T) (dilation_step 1) 0 y
          = Inr (weighted5 (\<lambda>k. to_float T (pixel_at T src ([2, 1, 0, 1, 2] ! nat (k + 2)) y)))
        \<and> conv_h_sum T (getPtr src) 5 (getStride src div sizeof T) (dilation_step 1) 4 y
          = Inr (weighted5 (\<lambda>k. to_float T (pixel_at T src ([2, 3, 4, 3, 2] ! nat (k + 2)) y))))"
proof (intro conjI impI)
  show "map (\<lambda>k. mirror_boundary (0 + (k * dilation_step 1)) 5) [- 2, - 1, 0, 1, 2]
      = map Inr [2, 1, 0, 1, 2]"
    by (simp add: mirror_boundary_def checked_int_def dilation_step_def)
  show "map (\<lambda>k. mirror_boundary (4 + (k * dilation_step 1)) 5) [- 2, - 1, 0, 1, 2]
      = map Inr [2, 3, 4, 3, 2]"
    by (simp add: mirror_boundary_def checked_int_def dilation_step_def)
next
  assume a: "plane_ok T src \<and> getFrameWidth src = 5 \<and> 0 \<le> y \<and> y < getFrameHeight src"
  define ss where "ss = getStride src div sizeof T"
  have g: "5 \<le> ss" "ss * getFrameHeight src \<le> int (length (getPtr src))"
    using a by (auto simp: plane_ok_def ss_def)
  have b: "0 \<le> y * ss" "y * ss + 5 \<le> int (length (getPtr src))"
    using row_start_bounds[of 5 ss "getFrameHeight src" "int (length (getPtr src))" y] g a by auto
  have m: "checked_int (k * dilation_step 1) = Inr (k * dilation_step 1)
      \<and> checked_int (x + (k * dilation_step 1)) = Inr (x + (k * dilation_step 1))
      \<and> mirror_boundary (x + (k * dilation_step 1)) 5 = Inr (mirror (x + (k * dilation_step 1)) 5)
      \<and> 0 \<le> mirror (x + (k * dilation_step 1)) 5
      \<and> mirror (x + (k * dilation_step 1)) 5 < 5"
    if "k \<in> {- 2, - 1, 0, 1, 2}" "x = 0 \<or> x = 4" for k x
    using tap_ok[of "dilation_step 1" 5 x k] that by (auto simp: dilation_step_def)
  show "conv_h_sum T (getPtr src) 5 (getStride src div sizeof T) (dilation_step 1) 0 y
      = Inr (weighted5 (\<lambda>k. to_float T (pixel_at T src ([2, 1, 0, 1, 2] ! nat (k + 2)) y)))"
    using conv_h_sum_ok[where x = 0 and step = "dilation_step 1" and width = 5 and y = y
        and ss = ss and src = "getPtr src" and T = T, OF m b]
    by (simp add: weighted5_unfold pixel_at_def ss_def mirror_def dilation_step_def)
  show "conv_h_sum T (getPtr src) 5 (getStride src div sizeof T) (dilation_step 1) 4 y
      = Inr (weighted5 (\<lambda>k. to_float T (pixel_at T src ([2, 3, 4, 3, 2] ! nat (k + 2)) y)))"
    using conv_h_sum_ok[where x = 4 and step = "dilation_step 1" and width = 5 and y = y
        and ss = ss and src = "getPtr src" and T = T, OF m b]
    by (simp add: weighted5_unfold pixel_at_def ss_def mirror_def dilation_step_def)
qed

theorem boundary_taps_width_5_witness:
  "plane_ok uint8_t (example_plane 5 5 (replicate 25 (7::nat)))
   \<and> conv_h_sum uint8_t (replicate 25 7) 5 5 (dilation_step 1) 0 0
       = Inr (weighted5 (\<lambda>k. to_float uint8_t
           (pixel_at uint8_t (example_plane 5 5 (replicate 25 7)) ([2, 1, 0, 1, 2] ! nat (k + 2)) 0)))"
proof -
  have ok: "plane_ok uint8_t (example_plane 5 5 (replicate 25 (7::nat)))"
    by (simp add: plane_ok_def example_plane_def uint8_t_def)
  from boundary_taps_width_5[of uint8_t "example_plane 5 5 (replicate 25 (7::nat))" 0] ok
  show ?thesis by (simp add: example_plane_def uint8_t_def)
qed

theorem boundary_taps_counterexample:
  "map (\<lambda>k. mirror_boundary (0 + (k * dilation_step 1)) 5) [- 2, - 1, 0, 1, 2]
     \<noteq> map Inr [1, 0, 0, 1, 2]"
  by (simp add: mirror_boundary_def checked_int_def dilation_step_def)

text \<open>
  \<^bold>\<open>C9\<close>. A single reflection leaves the axis for \<open>pos \<le> - n\<close> and for \<open>pos \<ge> 2 * n - 1\<close>:
  the resolver then returns no index of \<open>[0, n)\<close>. Nothing in the code prevents it:
  \<^verbatim>\<open>ExtractCreate\<close> accepts every radius from 1 upwards for every constant clip of an
  accepted format, whatever its dimensions, and on a plane whose width is at most twice the
  dilation step the very first tap of \<^verbatim>\<open>conv_h\<close> addresses a sample outside its row (at
  radius 31 the reflection of that tap overflows \<^verbatim>\<open>int\<close> before any access).
\<close>

theorem single_reflection_insufficient:
  "(pos \<le> - n \<or> 2 * n - 1 \<le> pos \<longrightarrow>
      \<not> (\<exists>v. mirror_boundary pos n = Inr v \<and> 0 \<le> v \<and> v < n))
   \<and> (1 \<le> radius \<and> radius \<le> 2147483647 \<and> isConstantVideoFormat vi \<and> accepted_format (format vi)
        \<longrightarrow> ExtractCreate vi (Some radius) = Inr \<lparr>ATWT_vi = vi, ATWT_radius = radius\<rparr>)
   \<and> (1 \<le> getFrameWidth src \<and> 1 \<le> getFrameHeight src \<and> 1 \<le> radius \<and> radius \<le> 30
        \<and> getFrameWidth src \<le> 2 * dilation_step radius
        \<longrightarrow> process_extract_plane T src dst radius fi = Inl OutOfRange)
   \<and> (1 \<le> getFrameWidth src \<and> 1 \<le> getFrameHeight src
        \<longrightarrow> process_extract_plane T src dst 31 fi = Inl SignedOverflow)"
proof (intro conjI impI)
  assume a: "pos \<le> - n \<or> 2 * n - 1 \<le> pos"
  show "\<not> (\<exists>v. mirror_boundary pos n = Inr v \<and> 0 \<le> v \<and> v < n)"
  proof
    assume "\<exists>v. mirror_boundary pos n = Inr v \<and> 0 \<le> v \<and> v < n"
    then obtain v where v: "mirror_boundary pos n = Inr v" "0 \<le> v" "v < n" by blast
    from mirror_boundary_value[OF v(1)] v(2,3) a show False
      by (auto simp: mirror_def split: if_splits)
  qed
next
  assume "1 \<le> radius \<and> radius \<le> 2147483647 \<and> isConstantVideoFormat vi
      \<and> accepted_format (format vi)"
  then show "ExtractCreate vi (Some radius) = Inr \<lparr>ATWT_vi = vi, ATWT_radius = radius\<rparr>"
    using ExtractCreate_accepts[of radius vi] by simp
next
  assume "1 \<le> getFrameWidth src \<and> 1 \<le> getFrameHeight src \<and> 1 \<le> radius \<and> radius \<le> 30
      \<and> getFrameWidth src \<le> 2 * dilation_step radius"
  then show "process_extract_plane T src dst radius fi = Inl OutOfRange"
    using extract_out_of_range[of src radius T dst fi] by simp
next
  assume "1 \<le> getFrameWidth src \<and> 1 \<le> getFrameHeight src"
  then show "process_extract_plane T src dst 31 fi = Inl SignedOverflow"
    using extract_overflow[of src T dst fi] by simp
qed

theorem single_reflection_insufficient_witness:
  "\<not> (\<exists>v. mirror_boundary (- 4) 4 = Inr v \<and> 0 \<le> v \<and> v < 4)
   \<and> ExtractCreate (example_clip example_format8 4 4) (Some 2)
       = Inr \<lparr>ATWT_vi = example_clip example_format8 4 4, ATWT_radius = 2\<rparr>
   \<and> process_extract_plane uint8_t (example_plane 4 4 (replicate 16 128))
        (example_plane 4 4 (replicate 16 0)) 2 example_format8 = Inl OutOfRange
   \<and> process_extract_plane uint8_t (example_plane 4 4 (replicate 16 128))
        (example_plane 4 4 (replicate 16 0)) 31 example_format8 = Inl SignedOverflow"
proof -
  have h1: "isConstantVideoFormat (example_clip example_format8 4 4)"
    "accepted_format (format (example_clip example_format8 4 4))"
    by (simp_all add: isConstantVideoFormat_def accepted_format_def example_clip_def
          example_format8_def)
  have h2: "getFrameWidth (example_plane 4 4 (replicate 16 (128::nat))) \<le> 2 * dilation_step 2"
    by (simp add: example_plane_def dilation_step_def)
  have h3: "1 \<le> getFrameWidth (example_plane 4 4 (replicate 16 (128::nat)))"
    "1 \<le> getFrameHeight (example_plane 4 4 (replicate 16 (128::nat)))"
    by (simp_all add: example_plane_def)
  from single_reflection_insufficient[of "- 4" 4 2 "example_clip example_format8 4 4"
      "example_plane 4 4 (replicate 16 (128::nat))" uint8_t "example_plane 4 4 (replicate 16 0)"
      example_format8] h1 h2 h3
  show ?thesis by simp
qed

section \<open>The operations on whole planes\<close>

lemma same_layout_update [simp]: "length xs = length (getPtr p) \<Longrightarrow> same_layout (p\<lparr>getPtr := xs\<rparr>) p"
  by (simp add: same_layout_def same_size_def)

lemma pixel_at_update [simp]:
  "pixel_at T (p\<lparr>getPtr := xs\<rparr>) x y = xs ! nat ((y * (getStride p div sizeof T)) + x)"
  by (simp add: pixel_at_def)

lemma plane_ok_layout: "plane_ok T q \<Longrightarrow> same_layout p q \<Longrightarrow> plane_ok T p"
  by (simp add: plane_ok_def same_layout_def same_size_def)

lemma dst_fits:
  assumes "plane_ok T dst" "same_size src dst"
  shows "getFrameWidth src \<le> getStride dst div sizeof T"
    "(getStride dst div sizeof T) * getFrameHeight src \<le> int (length (getPtr dst))"
  using assms by (simp_all add: plane_ok_def same_size_def)

lemma conv_v_sum_vertical:
  assumes ok: "plane_ok T src"
    and st: "0 \<le> step" "2 * step \<le> getFrameHeight src - 1"
    and sz: "getFrameHeight src \<le> 1073741823"
      "getFrameWidth src * getFrameHeight src \<le> 2147483647"
    and len: "int (length temp) = getFrameWidth src * getFrameHeight src"
    and tmp: "\<forall>x y. 0 \<le> x \<and> x < getFrameWidth src \<and> 0 \<le> y \<and> y < getFrameHeight src \<longrightarrow>
               temp ! nat ((y * getFrameWidth src) + x) = horizontal_pass T src step x y"
    and xy: "0 \<le> x" "x < getFrameWidth src" "0 \<le> y" "y < getFrameHeight src"
  shows "conv_v_sum temp (getFrameWidth src) (getFrameHeight src) step x y
         = Inr (vertical_pass T src step x y)"
proof -
  define w where "w = getFrameWidth src"
  define h where "h = getFrameHeight src"
  have m: "\<And>k. k \<in> {- 2, - 1, 0, 1, 2} \<Longrightarrow>
      checked_int (k * step) = Inr (k * step)
      \<and> checked_int (y + (k * step)) = Inr (y + (k * step))
      \<and> mirror_boundary (y + (k * step)) h = Inr (mirror (y + (k * step)) h)
      \<and> 0 \<le> mirror (y + (k * step)) h \<and> mirror (y + (k * step)) h < h"
    using tap_ok[OF st(1) _ xy(3,4)] st(2) sz(1) by (simp add: h_def)
  have b: "0 \<le> x" "x < w" "w * h \<le> int (length temp)"
    using xy len by (auto simp: w_def h_def)
  have sz': "w * h \<le> 2147483647" using sz(2) by (simp add: w_def h_def)
  have t: "temp ! nat ((mirror (y + (k * step)) h * w) + x)
      = horizontal_pass T src step x (mirror (y + (k * step)) h)"
    if "k \<in> {- 2, - 1, 0, 1, 2}" for k
    using tmp m[OF that] xy(1,2) by (simp add: w_def h_def)
  have "weighted5 (\<lambda>k. temp ! nat ((mirror (y + (k * step)) h * w) + x))
      = vertical_pass T src step x y"
    unfolding vertical_pass_def weighted5_def h_def[symmetric]
    using t[of "- 2"] t[of "- 1"] t[of 0] t[of 1] t[of 2] by simp
  then show ?thesis
    using conv_v_sum_ok[where y = y and step = step and height = h and x = x and width = w
        and temp = temp, OF m b sz'] by (simp add: w_def h_def)
qed

lemma extract_int_plane:
  assumes "plane_ok (uint_t W) src" "plane_ok (uint_t W) dst" "same_size src dst"
    and "taps_in_bounds src radius"
    and "8 \<le> bitsPerSample fi" "bitsPerSample fi \<le> 16" "bitsPerSample fi \<le> int W"
    and "samples_below (uint_t W) src (2 ^ 16)"
  shows "\<exists>D. process_extract_plane (uint_t W) src dst radius fi = Inr D \<and> same_layout D dst
         \<and> (\<forall>x y. in_plane src x y \<longrightarrow>
               pixel_at (uint_t W) D x y = Extract_int (uint_t W) fi src (dilation_step radius) x y)"
proof -
  from extract_int[OF assms(1) dst_fits[OF assms(2,3)] _ _ _ _ _ assms(5-8), of radius] assms(4)
  obtain dstp where d: "process_extract_plane (uint_t W) src dst radius fi = Inr (dst\<lparr>getPtr := dstp\<rparr>)"
    "length dstp = length (getPtr dst)"
    "\<forall>x y. 0 \<le> x \<and> x < getFrameWidth src \<and> 0 \<le> y \<and> y < getFrameHeight src \<longrightarrow>
       dstp ! nat ((y * (getStride dst div sizeof (uint_t W))) + x)
         = Extract_int (uint_t W) fi src (dilation_step radius) x y"
    unfolding taps_in_bounds_def by blast
  show ?thesis
    by (rule exI[of _ "dst\<lparr>getPtr := dstp\<rparr>"]) (use d in \<open>simp add: in_plane_def\<close>)
qed

lemma extract_float_plane:
  assumes "plane_ok float_t src" "plane_ok float_t dst" "same_size src dst"
    and "taps_in_bounds src radius"
  shows "\<exists>D. process_extract_plane float_t src dst radius fi = Inr D \<and> same_layout D dst
         \<and> (\<forall>x y. in_plane src x y \<longrightarrow>
               pixel_at float_t D x y = detail_value float_t src (Fin 0) (dilation_step radius) x y)"
proof -
  from extract_float[OF assms(1) dst_fits[OF assms(2,3)], of radius fi] assms(4)
  obtain dstp where d: "process_extract_plane float_t src dst radius fi = Inr (dst\<lparr>getPtr := dstp\<rparr>)"
    "length dstp = length (getPtr dst)"
    "\<forall>x y. 0 \<le> x \<and> x < getFrameWidth src \<and> 0 \<le> y \<and> y < getFrameHeight src \<longrightarrow>
       dstp ! nat ((y * (getStride dst div sizeof float_t)) + x)
         = detail_value float_t src (Fin 0) (dilation_step radius) x y"
    unfolding taps_in_bounds_def by blast
  show ?thesis
    by (rule exI[of _ "dst\<lparr>getPtr := dstp\<rparr>"]) (use d in \<open>simp add: in_plane_def\<close>)
qed

lemma replace_int_plane:
  assumes dok: "plane_ok (uint_t W) dst" and lay: "same_layout base dst" "same_layout detail dst"
    and bits: "8 \<le> bitsPerSample fi" "bitsPerSample fi \<le> 16" "bitsPerSample fi \<le> int W"
    and sb: "samples_below (uint_t W) base (2 ^ 16)" "samples_below (uint_t W) detail (2 ^ 16)"
  shows "\<exists>R. ProcessReplacePlane (uint_t W) base detail dst fi = Inr R \<and> same_layout R dst
         \<and> (\<forall>x y. in_plane dst x y \<longrightarrow>
               pixel_at (uint_t W) R x y
                 = Replace_int (bitsPerSample fi) (pixel_at (uint_t W) base x y)
                     (pixel_at (uint_t W) detail x y))"
proof -
  have g: "getStride base = getStride dst" "getStride detail = getStride dst"
    "getFrameWidth base = getFrameWidth dst" "getFrameHeight base = getFrameHeight dst"
    "getFrameWidth detail = getFrameWidth dst" "getFrameHeight detail = getFrameHeight dst"
    "length (getPtr base) = length (getPtr dst)" "length (getPtr detail) = length (getPtr dst)"
    using lay by (simp_all add: same_layout_def same_size_def)
  have bok: "(getStride dst div sizeof (uint_t W)) * getFrameHeight dst \<le> int (length (getPtr base))"
    "(getStride dst div sizeof (uint_t W)) * getFrameHeight dst \<le> int (length (getPtr detail))"
    using dok g by (simp_all add: plane_ok_def)
  have s: "getPtr base ! nat ((y * (getStride dst div sizeof (uint_t W))) + x) < 2 ^ 16
       \<and> getPtr detail ! nat ((y * (getStride dst div sizeof (uint_t W))) + x) < 2 ^ 16"
    if "0 \<le> x" "x < getFrameWidth dst" "0 \<le> y" "y < getFrameHeight dst" for x y
  proof -
    have "int (pixel_at (uint_t W) base x y) < 2 ^ 16" "int (pixel_at (uint_t W) detail x y) < 2 ^ 16"
      using sb that g unfolding samples_below_def by auto
    then show ?thesis using g by (simp add: pixel_at_def)
  qed
  from replace_int[OF dok bok bits s]
  obtain dstp where d: "ProcessReplacePlane (uint_t W) base detail dst fi = Inr (dst\<lparr>getPtr := dstp\<rparr>)"
    "length dstp = length (getPtr dst)"
    "\<forall>x y. 0 \<le> x \<and> x < getFrameWidth dst \<and> 0 \<le> y \<and> y < getFrameHeight dst \<longrightarrow>
       dstp ! nat ((y * (getStride dst div sizeof (uint_t W))) + x)
         = Replace_int (bitsPerSample fi)
             (getPtr base ! nat ((y * (getStride dst div sizeof (uint_t W))) + x))
             (getPtr detail ! nat ((y * (getStride dst div sizeof (uint_t W))) + x))"
    by blast
  show ?thesis
    by (rule exI[of _ "dst\<lparr>getPtr := dstp\<rparr>"])
       (use d g in \<open>simp add: in_plane_def pixel_at_def\<close>)
qed

lemma replace_float_plane:
  assumes dok: "plane_ok float_t dst" and lay: "same_layout base dst" "same_layout detail dst"
  shows "\<exists>R. ProcessReplacePlane float_t base detail dst fi = Inr R \<and> same_layout R dst
         \<and> (\<forall>x y. in_plane dst x y \<longrightarrow>
               pixel_at float_t R x y
                 = fadd (pixel_at float_t base x y) (pixel_at float_t detail x y))"
proof -
  have g: "getStride base = getStride dst" "getStride detail = getStride dst"
    "length (getPtr base) = length (getPtr dst)" "length (getPtr detail) = length (getPtr dst)"
    using lay by (simp_all add: same_layout_def same_size_def)
  have bok: "(getStride dst div sizeof float_t) * getFrameHeight dst \<le> int (length (getPtr base))"
    "(getStride dst div sizeof float_t) * getFrameHeight dst \<le> int (length (getPtr detail))"
    using dok g by (simp_all add: plane_ok_def)
  from replace_float[OF dok bok, of fi]
  obtain dstp where d: "ProcessReplacePlane float_t base detail dst fi = Inr (dst\<lparr>getPtr := dstp\<rparr>)"
    "length dstp = length (getPtr dst)"
    "\<forall>x y. 0 \<le> x \<and> x < getFrameWidth dst \<and> 0 \<le> y \<and> y < getFrameHeight dst \<longrightarrow>
       dstp ! nat ((y * (getStride dst div sizeof float_t)) + x)
         = fadd (getPtr base ! nat ((y * (getStride dst div sizeof float_t)) + x))
                (getPtr detail ! nat ((y * (getStride dst div sizeof float_t)) + x))"
    by blast
  show ?thesis
    by (rule exI[of _ "dst\<lparr>getPtr := dstp\<rparr>"])
       (use d g in \<open>simp add: in_plane_def pixel_at_def\<close>)
qed

lemma store_detail_uint_Inr:
  "store_detail (uint_t W) val (Fin m) = Inr v \<Longrightarrow> val \<noteq> NegZero \<Longrightarrow>
   \<exists>d. val = Fin d \<and> v = nat (trunc (clamp (fround d) 0 m))"
  by (auto simp: store_detail_def cast_uint_def split: f32.splits if_splits)

section \<open>Bounds of the taps\<close>

lemma samples_below_mono: "samples_below T p a \<Longrightarrow> a \<le> b \<Longrightarrow> samples_below T p b"
  unfolding samples_below_def by (meson less_le_trans)

lemma uint_plane_16:
  assumes "integer_format W fi" "uint_plane W p"
  shows "plane_ok (uint_t W) p" "samples_below (uint_t W) p (2 ^ 16)"
    "8 \<le> bitsPerSample fi" "bitsPerSample fi \<le> 16" "bitsPerSample fi \<le> int W"
proof -
  have W: "W = 8 \<or> W = 16" using assms(1) by (simp add: integer_format_def)
  then have "(2::int) ^ W \<le> 2 ^ 16" by auto
  then show "samples_below (uint_t W) p (2 ^ 16)"
    using assms(2) samples_below_mono unfolding uint_plane_def by blast
  show "plane_ok (uint_t W) p" using assms(2) by (simp add: uint_plane_def)
  show "8 \<le> bitsPerSample fi" "bitsPerSample fi \<le> int W"
    using assms(1) by (simp_all add: integer_format_def)
  then show "bitsPerSample fi \<le> 16" using W by auto
qed

lemma packed_plane_ok:
  "0 \<le> w \<Longrightarrow> 0 \<le> h \<Longrightarrow> 0 < sizeof T \<Longrightarrow> w * h \<le> int (length xs) \<Longrightarrow> plane_ok T (packed_plane T w h xs)"
  by (simp add: plane_ok_def packed_plane_def)

lemma packed_plane_simps [simp]:
  "getFrameWidth (packed_plane T w h xs) = w" "getFrameHeight (packed_plane T w h xs) = h"
  "getPtr (packed_plane T w h xs) = xs"
  by (simp_all add: packed_plane_def)

lemma packed_pixel_at: "0 < sizeof T \<Longrightarrow> pixel_at T (packed_plane T w h xs) x y = xs ! nat ((y * w) + x)"
  by (simp add: pixel_at_def packed_plane_def)

lemma flat_index:
  assumes "0 \<le> x" "x < w" "0 \<le> y" "y < h"
  shows "nat ((y * w) + x) < nat (w * h)"
proof -
  have "(y + 1) * w \<le> h * w" using assms by (intro mult_right_mono) auto
  then have "y * w + x < w * h" using assms by (simp add: algebra_simps)
  moreover have "0 \<le> y * w + x" using assms by simp
  ultimately show ?thesis by simp
qed

lemma flat_packed_pixel:
  assumes "0 < sizeof T" "in_plane (packed_plane T w h (replicate (nat (w * h)) c)) x y"
  shows "pixel_at T (packed_plane T w h (replicate (nat (w * h)) c)) x y = c"
  using assms flat_index[of x w y h] by (simp add: packed_pixel_at in_plane_def)

lemma flat_uint_plane:
  assumes "0 \<le> w" "0 \<le> h" "8 \<le> W" "int c < 2 ^ W"
  shows "uint_plane W (packed_plane (uint_t W) w h (replicate (nat (w * h)) c))"
proof -
  have s: "0 < sizeof (uint_t W)" using assms(3) by simp
  have "plane_ok (uint_t W) (packed_plane (uint_t W) w h (replicate (nat (w * h)) c))"
    using assms s by (intro packed_plane_ok) auto
  moreover have "samples_below (uint_t W) (packed_plane (uint_t W) w h (replicate (nat (w * h)) c)) (2 ^ W)"
    unfolding samples_below_def
  proof (intro allI impI)
    fix x y
    assume "0 \<le> x \<and> x < getFrameWidth (packed_plane (uint_t W) w h (replicate (nat (w * h)) c))
      \<and> 0 \<le> y \<and> y < getFrameHeight (packed_plane (uint_t W) w h (replicate (nat (w * h)) c))"
    then have "in_plane (packed_plane (uint_t W) w h (replicate (nat (w * h)) c)) x y"
      by (simp add: in_plane_def)
    from flat_packed_pixel[OF s this] assms(4)
    show "int (pixel_at (uint_t W) (packed_plane (uint_t W) w h (replicate (nat (w * h)) c)) x y) < 2 ^ W"
      by simp
  qed
  ultimately show ?thesis by (simp add: uint_plane_def)
qed

text \<open>
  \<^bold>\<open>C10\<close> (as amended). For every axis size \<open>n < 2^30\<close> and step \<open>0 \<le> step\<close> with
  \<open>2 * step \<le> n - 1\<close>, every position \<open>x\<close> of \<open>[0, n)\<close> and every tap offset \<open>k\<close> of
  \<open>[-2, 2]\<close>, the tap position \<open>x + k * step\<close> is computed without overflow and one
  application of the resolver gives an index of \<open>[0, n)\<close>. Under this condition on the
  width and on the height of a plane of at most \<open>2^31 - 1\<close> samples (\<open>taps_in_bounds\<close>), the
  horizontal pass returns its buffer and every vertical tap sum over it returns a value, for
  every pixel type; and the whole extraction of a float plane, or of an integer plane of an
  accepted format, returns a plane: neither the out-of-range branch nor an overflow is
  reached. On a plane of \<open>2^31\<close> samples or more the index \<open>y_tap * width + x\<close> of the
  vertical pass overflows \<^verbatim>\<open>int\<close>.
\<close>

theorem taps_stay_in_bounds:
  "(0 \<le> step \<and> 2 * step \<le> n - 1 \<and> n \<le> 1073741823 \<and> 0 \<le> x \<and> x < n \<and> - 2 \<le> k \<and> k \<le> 2
      \<longrightarrow>
      checked_int (k * step) = Inr (k * step)
      \<and> checked_int (x + (k * step)) = Inr (x + (k * step))
      \<and> (\<exists>i. mirror_boundary (x + (k * step)) n = Inr i \<and> 0 \<le> i \<and> i < n))
   \<and> (plane_ok T src \<and> taps_in_bounds src radius \<longrightarrow>
        (\<exists>temp. conv_h T (getPtr src)
                  (replicate (nat (getFrameWidth src * getFrameHeight src)) (Fin 0))
                  (getFrameWidth src) (getFrameHeight src) (getStride src div sizeof T)
                  (dilation_step radius) = Inr temp
           \<and> (\<forall>x y. in_plane src x y \<longrightarrow>
                 (\<exists>v. conv_v_sum temp (getFrameWidth src) (getFrameHeight src)
                         (dilation_step radius) x y = Inr v))))
   \<and> (plane_ok float_t fsrc \<and> plane_ok float_t fdst \<and> same_size fsrc fdst
        \<and> taps_in_bounds fsrc radius \<longrightarrow>
        (\<exists>D. process_extract_plane float_t fsrc fdst radius ffi = Inr D))
   \<and> (integer_format W fi \<and> uint_plane W isrc \<and> plane_ok (uint_t W) idst \<and> same_size isrc idst
        \<and> taps_in_bounds isrc radius \<longrightarrow>
        (\<exists>D. process_extract_plane (uint_t W) isrc idst radius fi = Inr D))"
proof (intro conjI impI)
  assume a: "0 \<le> step \<and> 2 * step \<le> n - 1 \<and> n \<le> 1073741823 \<and> 0 \<le> x \<and> x < n
      \<and> - 2 \<le> k \<and> k \<le> 2"
  then have "k \<in> {- 2, - 1, 0, 1, 2}" by auto
  with a tap_ok[of step n x k]
  show "checked_int (k * step) = Inr (k * step)"
    "checked_int (x + (k * step)) = Inr (x + (k * step))"
    "\<exists>i. mirror_boundary (x + (k * step)) n = Inr i \<and> 0 \<le> i \<and> i < n" by auto
next
  assume a: "plane_ok T src \<and> taps_in_bounds src radius"
  then have ok: "plane_ok T src" and st: "0 \<le> dilation_step radius"
    "2 * dilation_step radius \<le> getFrameWidth src - 1"
    "2 * dilation_step radius \<le> getFrameHeight src - 1"
    and sz: "getFrameWidth src * getFrameHeight src \<le> 2147483647"
    using dilation_step_pos[of radius] by (auto simp: taps_in_bounds_def)
  note ax = axis_bounds[OF dilation_step_pos st(2,3) sz]
  from conv_h_ok[OF ok st(1,2) ax(1) sz]
  obtain temp where t: "conv_h T (getPtr src)
        (replicate (nat (getFrameWidth src * getFrameHeight src)) (Fin 0))
        (getFrameWidth src) (getFrameHeight src) (getStride src div sizeof T)
        (dilation_step radius) = Inr temp"
      "int (length temp) = getFrameWidth src * getFrameHeight src"
      "\<forall>x y. 0 \<le> x \<and> x < getFrameWidth src \<and> 0 \<le> y \<and> y < getFrameHeight src \<longrightarrow>
         temp ! nat ((y * getFrameWidth src) + x) = horizontal_pass T src (dilation_step radius) x y"
    by blast
  have "\<exists>v. conv_v_sum temp (getFrameWidth src) (getFrameHeight src) (dilation_step radius) x y = Inr v"
    if "in_plane src x y" for x y
    using conv_v_sum_vertical[OF ok st(1,3) ax(2) sz t(2,3), of x y] that
    by (simp add: in_plane_def)
  with t(1) show "\<exists>temp. conv_h T (getPtr src)
        (replicate (nat (getFrameWidth src * getFrameHeight src)) (Fin 0))
        (getFrameWidth src) (getFrameHeight src) (getStride src div sizeof T)
        (dilation_step radius) = Inr temp
      \<and> (\<forall>x y. in_plane src x y \<longrightarrow>
            (\<exists>v. conv_v_sum temp (getFrameWidth src) (getFrameHeight src)
                    (dilation_step radius) x y = Inr v))"
    by blast
next
  assume "plane_ok float_t fsrc \<and> plane_ok float_t fdst \<and> same_size fsrc fdst
      \<and> taps_in_bounds fsrc radius"
  then show "\<exists>D. process_extract_plane float_t fsrc fdst radius ffi = Inr D"
    using extract_float_plane[of fsrc fdst radius ffi] by blast
next
  assume a: "integer_format W fi \<and> uint_plane W isrc \<and> plane_ok (uint_t W) idst
      \<and> same_size isrc idst \<and> taps_in_bounds isrc radius"
  then have f: "integer_format W fi" "uint_plane W isrc" by simp_all
  from extract_int_plane[OF uint_plane_16(1)[OF f] _ _ _ uint_plane_16(3-5)[OF f]
      uint_plane_16(2)[OF f], of idst radius] a
  show "\<exists>D. process_extract_plane (uint_t W) isrc idst radius fi = Inr D" by blast
qed

theorem taps_stay_in_bounds_witness:
  "(\<exists>i. mirror_boundary (0 + (- 2 * 2)) 5 = Inr i \<and> 0 \<le> i \<and> i < 5)
   \<and> (\<exists>temp. conv_h uint8_t (replicate 25 7) (replicate 25 (Fin 0)) 5 5 5 (dilation_step 2) = Inr temp)
   \<and> (\<exists>D. process_extract_plane float_t (packed_plane float_t 5 5 (replicate 25 (Fin 1)))
             (packed_plane float_t 5 5 (replicate 25 (Fin 0))) 2 example_formatS = Inr D)
   \<and> (\<exists>D. process_extract_plane (uint_t 8) (packed_plane (uint_t 8) 5 5 (replicate 25 7))
             (packed_plane (uint_t 8) 5 5 (replicate 25 0)) 2 example_format8 = Inr D)"
proof -
  have tb: "taps_in_bounds (packed_plane T 5 5 xs) 2" for T and xs :: "'a list"
    by (simp add: taps_in_bounds_def dilation_step_def)
  have p1: "plane_ok uint8_t (packed_plane uint8_t 5 5 (replicate 25 (7::nat)))"
    by (rule packed_plane_ok) (simp_all add: uint8_t_def)
  have pf: "plane_ok float_t (packed_plane float_t 5 5 (replicate 25 v))" for v
    by (rule packed_plane_ok) simp_all
  have pi: "plane_ok (uint_t 8) (packed_plane (uint_t 8) 5 5 (replicate 25 (0::nat)))"
    by (rule packed_plane_ok) simp_all
  have up: "uint_plane 8 (packed_plane (uint_t 8) 5 5 (replicate 25 7))"
    using flat_uint_plane[of 5 5 8 7] by simp
  have fmt: "integer_format 8 example_format8"
    by (simp add: integer_format_def example_format8_def)
  have ss: "same_size (packed_plane T 5 5 xs) (packed_plane T 5 5 ys)"
    for T and xs ys :: "'a list" by (simp add: same_size_def)
  note T = taps_stay_in_bounds[of 2 5 0 "- 2" uint8_t
      "packed_plane uint8_t 5 5 (replicate 25 (7::nat))" 2
      "packed_plane float_t 5 5 (replicate 25 (Fin 1))"
      "packed_plane float_t 5 5 (replicate 25 (Fin 0))" example_formatS
      8 example_format8 "packed_plane (uint_t 8) 5 5 (replicate 25 7)"
      "packed_plane (uint_t 8) 5 5 (replicate 25 0)"]
  have c1: "\<exists>i. mirror_boundary (0 + (- 2 * 2)) 5 = Inr i \<and> 0 \<le> i \<and> i < 5"
    using T[THEN conjunct1] by simp
  have c2: "\<exists>temp. conv_h uint8_t (replicate 25 7) (replicate 25 (Fin 0)) 5 5 5 (dilation_step 2) = Inr temp"
    using T[THEN conjunct2, THEN conjunct1] tb[of uint8_t "replicate 25 (7::nat)"] p1
    by (auto simp: packed_plane_def uint8_t_def)
  have c3: "\<exists>D. process_extract_plane float_t (packed_plane float_t 5 5 (replicate 25 (Fin 1)))
             (packed_plane float_t 5 5 (replicate 25 (Fin 0))) 2 example_formatS = Inr D"
    using T[THEN conjunct2, THEN conjunct2, THEN conjunct1] tb pf ss by blast
  have c4: "\<exists>D. process_extract_plane (uint_t 8) (packed_plane (uint_t 8) 5 5 (replicate 25 7))
             (packed_plane (uint_t 8) 5 5 (replicate 25 0)) 2 example_format8 = Inr D"
    using T[THEN conjunct2, THEN conjunct2, THEN conjunct2] tb pi up fmt ss by blast
  show ?thesis using c1 c2 c3 c4 by (intro conjI)
qed

theorem taps_overflow_counterexample:
  "2 * dilation_step 1 \<le> 65536 - 1 \<and> (0::int) \<le> 32770 \<and> (32770::int) < 65536
   \<and> mirror_boundary (32770 + (- 2 * dilation_step 1)) 65536 = Inr 32768
   \<and> (\<forall>temp. conv_v_sum temp 65536 65536 (dilation_step 1) 0 32770 = Inl SignedOverflow)"
  by (simp add: conv_v_sum_def mirror_boundary_def checked_int_def dilation_step_def)

section \<open>Extract and Replace, pixel by pixel\<close>

lemma flat_plane_ok: "0 \<le> w \<Longrightarrow> 0 \<le> h \<Longrightarrow> 0 < sizeof T \<Longrightarrow> plane_ok T (flat_plane T w h c)"
  unfolding flat_plane_def by (rule packed_plane_ok) simp_all

lemma flat_plane_uint: "0 \<le> w \<Longrightarrow> 0 \<le> h \<Longrightarrow> 8 \<le> W \<Longrightarrow> int c < 2 ^ W
    \<Longrightarrow> uint_plane W (flat_plane (uint_t W) w h c)"
  unfolding flat_plane_def by (rule flat_uint_plane)

lemma flat_plane_simps [simp]:
  "getFrameWidth (flat_plane T w h c) = w" "getFrameHeight (flat_plane T w h c) = h"
  by (simp_all add: flat_plane_def)

lemma flat_plane_layout: "same_layout (flat_plane T w h a) (flat_plane T w h b)"
  by (simp add: same_layout_def same_size_def flat_plane_def packed_plane_def)

lemma flat_plane_size: "same_size (flat_plane T w h a) (flat_plane T w h b)"
  by (simp add: same_size_def)

lemma flat_plane_pixel:
  "0 < sizeof T \<Longrightarrow> in_plane (flat_plane T w h c) x y \<Longrightarrow> pixel_at T (flat_plane T w h c) x y = c"
  unfolding flat_plane_def by (rule flat_packed_pixel)

text \<open>
  \<^bold>\<open>C3\<close> (as amended). Where the taps stay in bounds on a plane of at most \<open>2^31 - 1\<close> samples
  (\<open>taps_in_bounds\<close>: \<open>2 * step \<le> size - 1\<close> on both axes for the step \<open>2^(radius-1)\<close>),
  \<^verbatim>\<open>conv_h\<close> stores at every position the \<open>horizontal_pass\<close>,
  the unnormalised five-tap sum of the mirrored samples of the row, in the float buffer.
  \<^verbatim>\<open>conv_v_and_extract\<close> then stores at every position the value computed from the
  \<open>detail_value\<close> (the source sample minus the \<open>vertical_pass\<close> over that buffer divided by
  256, plus the neutral value): a float plane receives it as it is, without rounding or
  clamping; an integer plane receives it rounded half away from zero, clamped to
  \<open>[0, 2^bits - 1]\<close> and truncated. On a smaller plane the mirrored tap leaves the row: a clip
  of 2 by 2 is accepted by \<^verbatim>\<open>ExtractCreate\<close> at the default radius, and the extraction of its
  plane reads outside the row at the first tap.
\<close>

theorem extract_two_pass:
  "(plane_ok T src \<and> taps_in_bounds src radius \<longrightarrow>
      (\<exists>temp. conv_h T (getPtr src)
                (replicate (nat (getFrameWidth src * getFrameHeight src)) (Fin 0))
                (getFrameWidth src) (getFrameHeight src) (getStride src div sizeof T)
                (dilation_step radius) = Inr temp
         \<and> (\<forall>x y. in_plane src x y \<longrightarrow>
               temp ! nat ((y * getFrameWidth src) + x)
                 = horizontal_pass T src (dilation_step radius) x y)))
   \<and> (plane_ok float_t fsrc \<and> plane_ok float_t fdst \<and> same_size fsrc fdst
        \<and> taps_in_bounds fsrc radius \<longrightarrow>
        (\<exists>D. process_extract_plane float_t fsrc fdst radius ffi = Inr D \<and> same_layout D fdst
           \<and> (\<forall>x y. in_plane fsrc x y \<longrightarrow>
                 pixel_at float_t D x y
                   = detail_value float_t fsrc (Fin 0) (dilation_step radius) x y)))
   \<and> (integer_format W fi \<and> uint_plane W isrc \<and> plane_ok (uint_t W) idst \<and> same_size isrc idst
        \<and> taps_in_bounds isrc radius \<longrightarrow>
        (\<exists>D. process_extract_plane (uint_t W) isrc idst radius fi = Inr D \<and> same_layout D idst
           \<and> (\<forall>x y. in_plane isrc x y \<longrightarrow>
                 (\<exists>d. detail_value (uint_t W) isrc (Fin (2 ^ nat (bitsPerSample fi - 1)))
                         (dilation_step radius) x y = Fin d
                    \<and> pixel_at (uint_t W) D x y
                        = nat (trunc (clamp (fround d) 0 (2 ^ nat (bitsPerSample fi) - 1)))))))"
proof (intro conjI impI)
  assume a: "plane_ok T src \<and> taps_in_bounds src radius"
  then have ok: "plane_ok T src" and st: "0 \<le> dilation_step radius"
    "2 * dilation_step radius \<le> getFrameWidth src - 1"
    "2 * dilation_step radius \<le> getFrameHeight src - 1"
    and sz: "getFrameWidth src * getFrameHeight src \<le> 2147483647"
    using dilation_step_pos[of radius] by (auto simp: taps_in_bounds_def)
  note ax = axis_bounds[OF dilation_step_pos st(2,3) sz]
  from conv_h_ok[OF ok st(1,2) ax(1) sz]
  show "\<exists>temp. conv_h T (getPtr src)
        (replicate (nat (getFrameWidth src * getFrameHeight src)) (Fin 0))
        (getFrameWidth src) (getFrameHeight src) (getStride src div sizeof T)
        (dilation_step radius) = Inr temp
      \<and> (\<forall>x y. in_plane src x y \<longrightarrow>
            temp ! nat ((y * getFrameWidth src) + x)
              = horizontal_pass T src (dilation_step radius) x y)"
    unfolding in_plane_def by blast
next
  assume "plane_ok float_t fsrc \<and> plane_ok float_t fdst \<and> same_size fsrc fdst
      \<and> taps_in_bounds fsrc radius"
  then show "\<exists>D. process_extract_plane float_t fsrc fdst radius ffi = Inr D \<and> same_layout D fdst
      \<and> (\<forall>x y. in_plane fsrc x y \<longrightarrow>
            pixel_at float_t D x y
              = detail_value float_t fsrc (Fin 0) (dilation_step radius) x y)"
    using extract_float_plane[of fsrc fdst radius ffi] by blast
next
  assume a: "integer_format W fi \<and> uint_plane W isrc \<and> plane_ok (uint_t W) idst
      \<and> same_size isrc idst \<and> taps_in_bounds isrc radius"
  then have f: "integer_format W fi" "uint_plane W isrc" by simp_all
  note u = uint_plane_16[OF f]
  have st: "0 \<le> dilation_step radius" "2 * dilation_step radius \<le> getFrameWidth isrc - 1"
    "2 * dilation_step radius \<le> getFrameHeight isrc - 1"
    using a dilation_step_pos[of radius] by (auto simp: taps_in_bounds_def)
  from extract_int_plane[OF u(1) _ _ _ u(3-5) u(2), of idst radius] a
  obtain D where D: "process_extract_plane (uint_t W) isrc idst radius fi = Inr D"
    "same_layout D idst"
    "\<forall>x y. in_plane isrc x y \<longrightarrow>
       pixel_at (uint_t W) D x y = Extract_int (uint_t W) fi isrc (dilation_step radius) x y"
    by blast
  have "\<exists>d. detail_value (uint_t W) isrc (Fin (2 ^ nat (bitsPerSample fi - 1)))
               (dilation_step radius) x y = Fin d
          \<and> pixel_at (uint_t W) D x y
              = nat (trunc (clamp (fround d) 0 (2 ^ nat (bitsPerSample fi) - 1)))"
    if "in_plane isrc x y" for x y
  proof -
    have xy: "0 \<le> x" "x < getFrameWidth isrc" "0 \<le> y" "y < getFrameHeight isrc"
      using that by (simp_all add: in_plane_def)
    from store_extract_int(1)[OF u(3-5) u(2) st xy]
    have "store_detail (uint_t W)
        (detail_value (uint_t W) isrc (Fin (2 ^ nat (bitsPerSample fi - 1))) (dilation_step radius) x y)
        (Fin (2 ^ nat (bitsPerSample fi) - 1))
      = Inr (pixel_at (uint_t W) D x y)"
      using D(3) that by simp
    moreover from store_extract_int(2)[OF u(3-5) u(2) st xy]
    have "detail_value (uint_t W) isrc (Fin (2 ^ nat (bitsPerSample fi - 1)))
        (dilation_step radius) x y \<noteq> NegZero" by simp
    ultimately show ?thesis by (rule store_detail_uint_Inr)
  qed
  with D(1,2) show "\<exists>D. process_extract_plane (uint_t W) isrc idst radius fi = Inr D
      \<and> same_layout D idst
      \<and> (\<forall>x y. in_plane isrc x y \<longrightarrow>
            (\<exists>d. detail_value (uint_t W) isrc (Fin (2 ^ nat (bitsPerSample fi - 1)))
                    (dilation_step radius) x y = Fin d
               \<and> pixel_at (uint_t W) D x y
                   = nat (trunc (clamp (fround d) 0 (2 ^ nat (bitsPerSample fi) - 1)))))"
    by blast
qed

theorem extract_two_pass_witness:
  "(plane_ok (uint_t 8) (flat_plane (uint_t 8) 5 5 7)
      \<and> taps_in_bounds (flat_plane (uint_t 8) 5 5 7) 2
      \<and> in_plane (flat_plane (uint_t 8) 5 5 7) 0 0)
   \<and> (\<exists>temp. conv_h (uint_t 8) (getPtr (flat_plane (uint_t 8) 5 5 7))
          (replicate (nat (getFrameWidth (flat_plane (uint_t 8) 5 5 7)
             * getFrameHeight (flat_plane (uint_t 8) 5 5 7))) (Fin 0))
          (getFrameWidth (flat_plane (uint_t 8) 5 5 7))
          (getFrameHeight (flat_plane (uint_t 8) 5 5 7))
          (getStride (flat_plane (uint_t 8) 5 5 7) div sizeof (uint_t 8))
          (dilation_step 2) = Inr temp
        \<and> temp ! nat ((0 * getFrameWidth (flat_plane (uint_t 8) 5 5 7)) + 0)
            = horizontal_pass (uint_t 8) (flat_plane (uint_t 8) 5 5 7) (dilation_step 2) 0 0)
   \<and> (plane_ok float_t (flat_plane float_t 5 5 (Fin 1))
        \<and> plane_ok float_t (flat_plane float_t 5 5 (Fin 0))
        \<and> same_size (flat_plane float_t 5 5 (Fin 1)) (flat_plane float_t 5 5 (Fin 0))
        \<and> taps_in_bounds (flat_plane float_t 5 5 (Fin 1)) 2)
   \<and> (\<exists>D. process_extract_plane float_t (flat_plane float_t 5 5 (Fin 1))
             (flat_plane float_t 5 5 (Fin 0)) 2 example_formatS = Inr D
          \<and> pixel_at float_t D 0 0
              = detail_value float_t (flat_plane float_t 5 5 (Fin 1)) (Fin 0) (dilation_step 2) 0 0)
   \<and> (integer_format 8 example_format8 \<and> uint_plane 8 (flat_plane (uint_t 8) 5 5 7)
        \<and> plane_ok (uint_t 8) (flat_plane (uint_t 8) 5 5 0)
        \<and> same_size (flat_plane (uint_t 8) 5 5 7) (flat_plane (uint_t 8) 5 5 0))
   \<and> (\<exists>D d. process_extract_plane (uint_t 8) (flat_plane (uint_t 8) 5 5 7)
             (flat_plane (uint_t 8) 5 5 0) 2 example_format8 = Inr D
          \<and> detail_value (uint_t 8) (flat_plane (uint_t 8) 5 5 7)
               (Fin (2 ^ nat (bitsPerSample example_format8 - 1))) (dilation_step 2) 0 0 = Fin d
          \<and> pixel_at (uint_t 8) D 0 0
              = nat (trunc (clamp (fround d) 0 (2 ^ nat (bitsPerSample example_format8) - 1))))"
proof -
  have tb: "taps_in_bounds (flat_plane T 5 5 c) 2" for T and c :: 'a
    by (simp add: taps_in_bounds_def dilation_step_def)
  have ip: "in_plane (flat_plane T 5 5 c) 0 0" for T and c :: 'a
    by (simp add: in_plane_def)
  have pf: "plane_ok float_t (flat_plane float_t 5 5 v)" for v
    by (rule flat_plane_ok) simp_all
  have pi: "plane_ok (uint_t 8) (flat_plane (uint_t 8) 5 5 c)" for c
    by (rule flat_plane_ok) simp_all
  have up: "uint_plane 8 (flat_plane (uint_t 8) 5 5 7)"
    by (rule flat_plane_uint) simp_all
  have fmt: "integer_format 8 example_format8"
    by (simp add: integer_format_def example_format8_def)
  note ss = flat_plane_size
  note T = extract_two_pass[of "uint_t 8" "flat_plane (uint_t 8) 5 5 7" 2
      "flat_plane float_t 5 5 (Fin 1)" "flat_plane float_t 5 5 (Fin 0)" example_formatS
      8 example_format8 "flat_plane (uint_t 8) 5 5 7" "flat_plane (uint_t 8) 5 5 0"]
  have c1: "\<exists>temp. conv_h (uint_t 8) (getPtr (flat_plane (uint_t 8) 5 5 7))
          (replicate (nat (getFrameWidth (flat_plane (uint_t 8) 5 5 7)
             * getFrameHeight (flat_plane (uint_t 8) 5 5 7))) (Fin 0))
          (getFrameWidth (flat_plane (uint_t 8) 5 5 7))
          (getFrameHeight (flat_plane (uint_t 8) 5 5 7))
          (getStride (flat_plane (uint_t 8) 5 5 7) div sizeof (uint_t 8))
          (dilation_step 2) = Inr temp
        \<and> temp ! nat ((0 * getFrameWidth (flat_plane (uint_t 8) 5 5 7)) + 0)
            = horizontal_pass (uint_t 8) (flat_plane (uint_t 8) 5 5 7) (dilation_step 2) 0 0"
    using T[THEN conjunct1] tb[of "uint_t 8" 7] pi[of 7] ip[of "uint_t 8" 7] by blast
  have c2: "\<exists>D. process_extract_plane float_t (flat_plane float_t 5 5 (Fin 1))
             (flat_plane float_t 5 5 (Fin 0)) 2 example_formatS = Inr D
          \<and> pixel_at float_t D 0 0
              = detail_value float_t (flat_plane float_t 5 5 (Fin 1)) (Fin 0) (dilation_step 2) 0 0"
    using T[THEN conjunct2, THEN conjunct1] tb[of float_t "Fin 1"] pf[of "Fin 1"] pf[of "Fin 0"]
      ss[of float_t 5 5 "Fin 1" "Fin 0"] ip[of float_t "Fin 1"] by blast
  have c3: "\<exists>D d. process_extract_plane (uint_t 8) (flat_plane (uint_t 8) 5 5 7)
             (flat_plane (uint_t 8) 5 5 0) 2 example_format8 = Inr D
          \<and> detail_value (uint_t 8) (flat_plane (uint_t 8) 5 5 7)
               (Fin (2 ^ nat (bitsPerSample example_format8 - 1))) (dilation_step 2) 0 0 = Fin d
          \<and> pixel_at (uint_t 8) D 0 0
              = nat (trunc (clamp (fround d) 0 (2 ^ nat (bitsPerSample example_format8) - 1)))"
    using T[THEN conjunct2, THEN conjunct2] tb[of "uint_t 8" 7] pi[of 0] up fmt
      ss[of "uint_t 8" 5 5 7 0] ip[of "uint_t 8" 7] by blast
  show ?thesis
    using c1 c2 c3 tb[of "uint_t 8" 7] tb[of float_t "Fin 1"] ip[of "uint_t 8" 7]
      pf[of "Fin 1"] pf[of "Fin 0"] pi[of 7] pi[of 0] up fmt
      ss[of float_t 5 5 "Fin 1" "Fin 0"] ss[of "uint_t 8" 5 5 7 0]
    by (intro conjI)
qed

theorem extract_two_pass_counterexample:
  "ExtractCreate (example_clip example_format8 2 2) None
     = Inr \<lparr>ATWT_vi = example_clip example_format8 2 2, ATWT_radius = 1\<rparr>
   \<and> process_extract_plane uint8_t (flat_plane uint8_t 2 2 128) (flat_plane uint8_t 2 2 0) 1
        example_format8 = Inl OutOfRange"
proof -
  have "ExtractCreate (example_clip example_format8 2 2) None
     = Inr \<lparr>ATWT_vi = example_clip example_format8 2 2, ATWT_radius = 1\<rparr>"
    by (simp add: ExtractCreate_def isConstantVideoFormat_def example_clip_def
        example_format8_def)
  moreover have "process_extract_plane uint8_t (flat_plane uint8_t 2 2 128)
      (flat_plane uint8_t 2 2 0) 1 example_format8 = Inl OutOfRange"
    by (rule extract_out_of_range) (simp_all add: dilation_step_def)
  ultimately show ?thesis by (intro conjI)
qed

text \<open>
  \<^bold>\<open>C4\<close>. For planes \<open>base\<close> and \<open>detail\<close> of the layout of the destination and every pixel,
  \<^verbatim>\<open>ProcessReplacePlane\<close> stores \<open>base + detail - neutral\<close>. For an integer format the neutral
  value is \<open>2^(bits-1)\<close> and the stored sample is that value rounded half away from zero and
  clamped to \<open>[0, 2^bits - 1]\<close> (\<open>quantize\<close>); for the float format the neutral value is 0 and
  the stored sample is the float sum itself, not clamped.
\<close>

theorem replace_pixelwise:
  "(integer_format W fi \<and> uint_plane W base \<and> uint_plane W detail \<and> plane_ok (uint_t W) dst
      \<and> same_layout base dst \<and> same_layout detail dst \<longrightarrow>
      get_neutral (uint_t W) fi = Inr (Fin (2 ^ nat (bitsPerSample fi - 1)))
      \<and> (\<exists>R. ProcessReplacePlane (uint_t W) base detail dst fi = Inr R \<and> same_layout R dst
            \<and> (\<forall>x y. in_plane dst x y \<longrightarrow>
                  pixel_at (uint_t W) R x y
                    = nat (quantize (bitsPerSample fi)
                        (of_int (int (pixel_at (uint_t W) base x y))
                           + of_int (int (pixel_at (uint_t W) detail x y))
                           - 2 ^ nat (bitsPerSample fi - 1))))))
   \<and> (plane_ok float_t fdst \<and> same_layout fbase fdst \<and> same_layout fdetail fdst \<longrightarrow>
        get_neutral float_t ffi = Inr (Fin 0)
        \<and> (\<exists>R. ProcessReplacePlane float_t fbase fdetail fdst ffi = Inr R \<and> same_layout R fdst
              \<and> (\<forall>x y. in_plane fdst x y \<longrightarrow>
                    pixel_at float_t R x y
                      = fsub (fadd (pixel_at float_t fbase x y) (pixel_at float_t fdetail x y))
                          (Fin 0)
                    \<and> pixel_at float_t R x y
                      = fadd (pixel_at float_t fbase x y) (pixel_at float_t fdetail x y))))"
proof (intro conjI impI)
  assume a: "integer_format W fi \<and> uint_plane W base \<and> uint_plane W detail
      \<and> plane_ok (uint_t W) dst \<and> same_layout base dst \<and> same_layout detail dst"
  then have f: "integer_format W fi" "uint_plane W base" "uint_plane W detail" by simp_all
  note u = uint_plane_16[OF f(1,2)]
  show "get_neutral (uint_t W) fi = Inr (Fin (2 ^ nat (bitsPerSample fi - 1)))"
    using get_neutral_uint[OF u(3,4), of W] by simp
  from replace_int_plane[OF _ _ _ u(3-5) u(2) uint_plane_16(2)[OF f(1,3)], of dst] a
  show "\<exists>R. ProcessReplacePlane (uint_t W) base detail dst fi = Inr R \<and> same_layout R dst
      \<and> (\<forall>x y. in_plane dst x y \<longrightarrow>
            pixel_at (uint_t W) R x y
              = nat (quantize (bitsPerSample fi)
                  (of_int (int (pixel_at (uint_t W) base x y))
                     + of_int (int (pixel_at (uint_t W) detail x y))
                     - 2 ^ nat (bitsPerSample fi - 1))))"
    unfolding Replace_int_def by blast
next
  assume a: "plane_ok float_t fdst \<and> same_layout fbase fdst \<and> same_layout fdetail fdst"
  show "get_neutral float_t ffi = Inr (Fin 0)" by simp
  from replace_float_plane[of fdst fbase fdetail ffi] a
  show "\<exists>R. ProcessReplacePlane float_t fbase fdetail fdst ffi = Inr R \<and> same_layout R fdst
      \<and> (\<forall>x y. in_plane fdst x y \<longrightarrow>
            pixel_at float_t R x y
              = fsub (fadd (pixel_at float_t fbase x y) (pixel_at float_t fdetail x y)) (Fin 0)
            \<and> pixel_at float_t R x y
              = fadd (pixel_at float_t fbase x y) (pixel_at float_t fdetail x y))"
    by (simp add: fsub_zero)
qed

theorem replace_pixelwise_witness:
  "(integer_format 8 example_format8 \<and> uint_plane 8 (flat_plane (uint_t 8) 4 4 200)
      \<and> uint_plane 8 (flat_plane (uint_t 8) 4 4 100)
      \<and> plane_ok (uint_t 8) (flat_plane (uint_t 8) 4 4 0)
      \<and> same_layout (flat_plane (uint_t 8) 4 4 200) (flat_plane (uint_t 8) 4 4 0)
      \<and> same_layout (flat_plane (uint_t 8) 4 4 100) (flat_plane (uint_t 8) 4 4 0)
      \<and> in_plane (flat_plane (uint_t 8) 4 4 0) 0 0)
   \<and> (\<exists>R. ProcessReplacePlane (uint_t 8) (flat_plane (uint_t 8) 4 4 200)
           (flat_plane (uint_t 8) 4 4 100) (flat_plane (uint_t 8) 4 4 0) example_format8 = Inr R
        \<and> pixel_at (uint_t 8) R 0 0 = 172)
   \<and> (plane_ok float_t (flat_plane float_t 4 4 (Fin 0))
        \<and> same_layout (flat_plane float_t 4 4 (Fin (1 / 2))) (flat_plane float_t 4 4 (Fin 0))
        \<and> same_layout (flat_plane float_t 4 4 (Fin (1 / 4))) (flat_plane float_t 4 4 (Fin 0))
        \<and> in_plane (flat_plane float_t 4 4 (Fin 0)) 0 0)
   \<and> (\<exists>R. ProcessReplacePlane float_t (flat_plane float_t 4 4 (Fin (1 / 2)))
             (flat_plane float_t 4 4 (Fin (1 / 4))) (flat_plane float_t 4 4 (Fin 0))
             example_formatS = Inr R
          \<and> pixel_at float_t R 0 0 = fadd (Fin (1 / 2)) (Fin (1 / 4)))"
proof -
  have ip: "in_plane (flat_plane T 4 4 c) 0 0" for T and c :: 'a
    by (simp add: in_plane_def)
  have pf: "plane_ok float_t (flat_plane float_t 4 4 v)" for v
    by (rule flat_plane_ok) simp_all
  have pi: "plane_ok (uint_t 8) (flat_plane (uint_t 8) 4 4 c)" for c
    by (rule flat_plane_ok) simp_all
  have up: "uint_plane 8 (flat_plane (uint_t 8) 4 4 200)" "uint_plane 8 (flat_plane (uint_t 8) 4 4 100)"
    by (rule flat_plane_uint, simp_all)+
  have fmt: "integer_format 8 example_format8" "bitsPerSample example_format8 = 8"
    by (simp_all add: integer_format_def example_format8_def)
  note sl = flat_plane_layout
  have px: "pixel_at (uint_t 8) (flat_plane (uint_t 8) 4 4 c) 0 0 = c" for c :: nat
    by (rule flat_plane_pixel) (simp_all add: ip)
  have pxf: "pixel_at float_t (flat_plane float_t 4 4 c) 0 0 = c" for c :: f32
    by (rule flat_plane_pixel) (simp_all add: ip)
  have q: "nat (quantize 8 (of_int (int 200) + of_int (int 100) - 2 ^ nat (8 - 1))) = 172"
  proof -
    have "(of_int (int 200) + of_int (int 100) - 2 ^ nat (8 - 1) :: rat) = of_int 172" by simp
    then show ?thesis by (simp only: quantize_def round_half_away_of_int Let_def) simp
  qed
  note T = replace_pixelwise[of 8 example_format8 "flat_plane (uint_t 8) 4 4 200"
      "flat_plane (uint_t 8) 4 4 100" "flat_plane (uint_t 8) 4 4 0"
      "flat_plane float_t 4 4 (Fin 0)" "flat_plane float_t 4 4 (Fin (1 / 2))"
      "flat_plane float_t 4 4 (Fin (1 / 4))" example_formatS]
  from T[THEN conjunct1] fmt(1) up pi[of 0] sl[of "uint_t 8" 4 4 200 0] sl[of "uint_t 8" 4 4 100 0]
  obtain R where R: "ProcessReplacePlane (uint_t 8) (flat_plane (uint_t 8) 4 4 200)
           (flat_plane (uint_t 8) 4 4 100) (flat_plane (uint_t 8) 4 4 0) example_format8 = Inr R"
    "\<forall>x y. in_plane (flat_plane (uint_t 8) 4 4 0) x y \<longrightarrow>
        pixel_at (uint_t 8) R x y
          = nat (quantize (bitsPerSample example_format8)
              (of_int (int (pixel_at (uint_t 8) (flat_plane (uint_t 8) 4 4 200) x y))
                 + of_int (int (pixel_at (uint_t 8) (flat_plane (uint_t 8) 4 4 100) x y))
                 - 2 ^ nat (bitsPerSample example_format8 - 1)))"
    by blast
  from R(2)[rule_format, OF ip] have "pixel_at (uint_t 8) R 0 0 = 172"
    unfolding px fmt(2) q .
  with R(1) have c1: "\<exists>R. ProcessReplacePlane (uint_t 8) (flat_plane (uint_t 8) 4 4 200)
           (flat_plane (uint_t 8) 4 4 100) (flat_plane (uint_t 8) 4 4 0) example_format8 = Inr R
        \<and> pixel_at (uint_t 8) R 0 0 = 172" by blast
  from T[THEN conjunct2] pf[of "Fin 0"] sl[of float_t 4 4 "Fin (1 / 2)" "Fin 0"]
    sl[of float_t 4 4 "Fin (1 / 4)" "Fin 0"]
  obtain Rf where Rf: "ProcessReplacePlane float_t (flat_plane float_t 4 4 (Fin (1 / 2)))
             (flat_plane float_t 4 4 (Fin (1 / 4))) (flat_plane float_t 4 4 (Fin 0))
             example_formatS = Inr Rf"
    "\<forall>x y. in_plane (flat_plane float_t 4 4 (Fin 0)) x y \<longrightarrow>
        pixel_at float_t Rf x y
          = fsub (fadd (pixel_at float_t (flat_plane float_t 4 4 (Fin (1 / 2))) x y)
                       (pixel_at float_t (flat_plane float_t 4 4 (Fin (1 / 4))) x y)) (Fin 0)
        \<and> pixel_at float_t Rf x y
          = fadd (pixel_at float_t (flat_plane float_t 4 4 (Fin (1 / 2))) x y)
                 (pixel_at float_t (flat_plane float_t 4 4 (Fin (1 / 4))) x y)"
    by blast
  from Rf(2)[rule_format, OF ip, THEN conjunct2]
  have "pixel_at float_t Rf 0 0 = fadd (Fin (1 / 2)) (Fin (1 / 4))" unfolding pxf .
  with Rf(1) have c2: "\<exists>R. ProcessReplacePlane float_t (flat_plane float_t 4 4 (Fin (1 / 2)))
             (flat_plane float_t 4 4 (Fin (1 / 4))) (flat_plane float_t 4 4 (Fin 0))
             example_formatS = Inr R
          \<and> pixel_at float_t R 0 0 = fadd (Fin (1 / 2)) (Fin (1 / 4))" by blast
  show ?thesis
    using c1 c2 ip[of "uint_t 8" 0] ip[of float_t "Fin 0"] pf[of "Fin 0"] pi[of 0] up fmt(1)
      sl[of "uint_t 8" 4 4 200 0] sl[of "uint_t 8" 4 4 100 0]
      sl[of float_t 4 4 "Fin (1 / 2)" "Fin 0"] sl[of float_t 4 4 "Fin (1 / 4)" "Fin 0"]
    by (intro conjI)
qed

section \<open>Validation at construction\<close>

lemma ExtractCreate_rejects:
  assumes "(case radius_arg of None \<Rightarrow> False | Some r \<Rightarrow> r < 1) \<or> \<not> isConstantVideoFormat vi
    \<or> \<not> accepted_format (format vi)"
  shows "\<exists>msg. ExtractCreate vi radius_arg = Inl msg"
  using assms
  by (auto simp: ExtractCreate_def int64ToIntS_def accepted_format_def Let_def split: option.splits)

lemma ReplaceCreate_rejects:
  assumes "\<not> isSameVideoFormat (format base_vi) (format vi_detail) \<or> \<not> isConstantVideoFormat base_vi
    \<or> \<not> accepted_format (format base_vi)"
  shows "\<exists>msg. ReplaceCreate base_vi vi_detail = Inl msg"
  using assms by (auto simp: ReplaceCreate_def accepted_format_def)

lemma ReplaceCreate_ignores_dimensions:
  "ReplaceCreate base_vi (vi_detail\<lparr>vi_width := w, vi_height := h\<rparr>) = ReplaceCreate base_vi vi_detail"
  by (simp add: ReplaceCreate_def)

text \<open>
  \<^bold>\<open>C8\<close>. \<^verbatim>\<open>ReplaceCreate\<close> compares the two formats with \<^verbatim>\<open>isSameVideoFormat\<close>, which
  does not see the dimensions: for an 8-bit base clip of 8 by 8 and an 8-bit detail clip of
  4 by 4 it registers the filter, although its own error message asks for ``the same format
  and dimensions''.
\<close>

theorem ReplaceCreate_accepts_mismatched_dimensions:
  "ReplaceCreate (example_clip example_format8 8 8) (example_clip example_format8 4 4)
     = Inr \<lparr>Replace_vi = example_clip example_format8 8 8\<rparr>"
  by (simp add: ReplaceCreate_def isSameVideoFormat_def isConstantVideoFormat_def
        example_clip_def example_format8_def)

theorem ReplaceCreate_accepts_mismatched_dimensions_witness:
  "vi_width (example_clip example_format8 8 8) \<noteq> vi_width (example_clip example_format8 4 4)
   \<and> (\<exists>d. ReplaceCreate (example_clip example_format8 8 8) (example_clip example_format8 4 4)
          = Inr d)"
  using ReplaceCreate_accepts_mismatched_dimensions by (simp add: example_clip_def)

section \<open>Constant planes\<close>

lemma weighted5_cong:
  "(\<And>k. k \<in> {- 2, - 1, 0, 1, 2} \<Longrightarrow> g k = g' k) \<Longrightarrow> weighted5 g = weighted5 g'"
  by (simp add: weighted5_unfold)

lemma wsum5_cong:
  "(\<And>k. k \<in> {- 2, - 1, 0, 1, 2} \<Longrightarrow> a k = a' k) \<Longrightarrow> wsum5 a = wsum5 a'"
  by (simp add: wsum5_def)

lemma constant_horizontal:
  assumes c: "constant_plane T src c"
    and st: "0 \<le> step" "2 * step \<le> getFrameWidth src - 1"
    and xy: "in_plane src x y"
  shows "horizontal_pass T src step x y = weighted5 (\<lambda>k. to_float T c)"
    "k \<in> {- 2, - 1, 0, 1, 2} \<Longrightarrow>
       pixel_at T src (mirror (x + (k * step)) (getFrameWidth src)) y = c"
proof -
  have p: "pixel_at T src (mirror (x + (k * step)) (getFrameWidth src)) y = c"
    if "k \<in> {- 2, - 1, 0, 1, 2}" for k
  proof -
    from mirror_in_range[OF st(1) _ _ _ that, of "getFrameWidth src" x] st(2) xy
    have "in_plane src (mirror (x + (k * step)) (getFrameWidth src)) y"
      by (simp add: in_plane_def)
    then show ?thesis using c by (simp add: constant_plane_def)
  qed
  show "horizontal_pass T src step x y = weighted5 (\<lambda>k. to_float T c)"
    unfolding horizontal_pass_def by (rule weighted5_cong) (simp add: p)
  show "k \<in> {- 2, - 1, 0, 1, 2} \<Longrightarrow>
       pixel_at T src (mirror (x + (k * step)) (getFrameWidth src)) y = c"
    by (rule p)
qed

lemma constant_rows:
  assumes st: "0 \<le> step" "2 * step \<le> getFrameHeight src - 1"
    and xy: "in_plane src x y" and k: "k \<in> {- 2, - 1, 0, 1, 2}"
  shows "in_plane src x (mirror (y + (k * step)) (getFrameHeight src))"
  using mirror_in_range[OF st(1) _ _ _ k, of "getFrameHeight src" y] st(2) xy
  by (simp add: in_plane_def)

lemma constant_detail:
  assumes c: "constant_plane T src c"
    and st: "0 \<le> step" "2 * step \<le> getFrameWidth src - 1" "2 * step \<le> getFrameHeight src - 1"
    and xy: "in_plane src x y"
  shows "detail_value T src nv step x y
    = fadd (fsub (to_float T c)
              (fdiv (weighted5 (\<lambda>k. weighted5 (\<lambda>k. to_float T c))) (Fin 256))) nv"
proof -
  have v: "vertical_pass T src step x y = weighted5 (\<lambda>k. weighted5 (\<lambda>k. to_float T c))"
    unfolding vertical_pass_def
    by (rule weighted5_cong)
       (rule constant_horizontal(1)[OF c st(1,2) constant_rows[OF st(1,3) xy]])
  have p: "pixel_at T src x y = c" using c xy by (simp add: constant_plane_def)
  show ?thesis by (simp add: detail_value_def v p)
qed

lemma constant_Extract_int:
  assumes c: "constant_plane T src c"
    and st: "0 \<le> step" "2 * step \<le> getFrameWidth src - 1" "2 * step \<le> getFrameHeight src - 1"
    and xy: "in_plane src x y"
    and bits: "1 \<le> bitsPerSample fi"
  shows "Extract_int T fi src step x y = 2 ^ nat (bitsPerSample fi - 1)"
proof -
  have h: "hsum T src step x y' = 16 * int c" if "in_plane src x y'" for y'
  proof -
    have "hsum T src step x y' = wsum5 (\<lambda>k. int c)"
      unfolding hsum_def
      by (rule wsum5_cong) (simp only: constant_horizontal(2)[OF c st(1,2) that])
    then show ?thesis by (simp add: wsum5_def)
  qed
  have "blur_sum T src step x y = wsum5 (\<lambda>k. 16 * int c)"
    unfolding blur_sum_def
    by (rule wsum5_cong) (rule h[OF constant_rows[OF st(1,3) xy]])
  then have b: "blur_sum T src step x y = 256 * int c" by (simp add: wsum5_def)
  have p: "pixel_at T src x y = c" using c xy by (simp add: constant_plane_def)
  define N :: int where "N = 2 ^ nat (bitsPerSample fi - 1)"
  have "nat (bitsPerSample fi) = Suc (nat (bitsPerSample fi - 1))" using bits by simp
  then have M: "(2::int) ^ nat (bitsPerSample fi) = 2 * N" by (simp add: N_def)
  have N1: "1 \<le> N" by (simp add: N_def)
  have "(of_int (int c) :: rat) - of_int (256 * int c) / 256 + 2 ^ nat (bitsPerSample fi - 1) = of_int N"
    by (simp add: N_def)
  then have "Extract_int T fi src step x y = nat (quantize (bitsPerSample fi) (of_int N))"
    by (simp only: Extract_int_def b p)
  also have "\<dots> = nat N" using N1 by (simp add: quantize_def Let_def M)
  finally show ?thesis by (simp add: N_def)
qed

lemma flat_plane_constant: "0 < sizeof T \<Longrightarrow> constant_plane T (flat_plane T w h c) c"
  by (simp add: constant_plane_def flat_plane_pixel)

lemma flat_plane_eqI:
  assumes lay: "same_layout D (flat_plane T w h a)" and sz: "0 < sizeof T" "0 \<le> w" "0 \<le> h"
    and px: "\<forall>x y. in_plane (flat_plane T w h a) x y \<longrightarrow> pixel_at T D x y = c"
  shows "D = flat_plane T w h c"
proof -
  have g: "getFrameWidth D = w" "getFrameHeight D = h" "getStride D = w * sizeof T"
    "length (getPtr D) = nat (w * h)"
    using lay by (simp_all add: same_layout_def same_size_def flat_plane_def packed_plane_def)
  have sd: "getStride D div sizeof T = w" using sz(1) g(3) by simp
  have "getPtr D = replicate (nat (w * h)) c"
  proof (rule nth_equalityI)
    show "length (getPtr D) = length (replicate (nat (w * h)) c)" using g(4) by simp
  next
    fix i assume "i < length (getPtr D)"
    then have i: "int i < w * h" using g(4) by simp
    then have w0: "0 < w" using sz(2,3) by (cases "w = 0") auto
    define x where "x = int i mod w"
    define y where "y = int i div w"
    have x: "0 \<le> x" "x < w" using w0 by (simp_all add: x_def)
    have y0: "0 \<le> y" using w0 by (simp add: y_def pos_imp_zdiv_nonneg_iff)
    have e: "y * w + x = int i" by (simp add: x_def y_def)
    then have "y * w \<le> int i" using x(1) by linarith
    then have "y * w < h * w" using i by (simp add: mult.commute)
    then have yh: "y < h" using w0 by (simp add: mult_less_cancel_right)
    from px x y0 yh have "pixel_at T D x y = c" by (simp add: in_plane_def)
    then have "getPtr D ! nat (y * w + x) = c" by (simp add: pixel_at_def sd)
    then have "getPtr D ! i = c" by (simp add: e)
    then show "getPtr D ! i = replicate (nat (w * h)) c ! i" using i by simp
  qed
  then show ?thesis using g by (simp add: flat_plane_def packed_plane_def)
qed

section \<open>The neutral value of constant planes\<close>

lemma fl_scaled:
  assumes "\<bar>n\<bar> < 2 ^ 24" "- 149 \<le> e" "e \<le> 100"
  shows "fl (of_int n * pow2 e) = Fin (of_int n * pow2 e)"
proof -
  have "\<bar>(of_int n :: rat)\<bar> = of_int \<bar>n\<bar>" by simp
  also have "\<dots> < of_int (2 ^ 24)" using assms(1) by (simp only: of_int_less_iff)
  finally have a: "\<bar>(of_int n :: rat)\<bar> < 2 ^ 24" by simp
  have "pow2 e \<le> pow2 100" using assms(3) by (simp add: pow2_le_iff)
  then have b: "pow2 e \<le> 2 ^ 100" by (simp add: pow2_def)
  have "\<bar>(of_int n :: rat) * pow2 e\<bar> = \<bar>of_int n\<bar> * pow2 e" by (simp add: abs_mult)
  also have "\<dots> \<le> \<bar>of_int n\<bar> * 2 ^ 100" using b by (intro mult_left_mono) auto
  also have "\<dots> < 2 ^ 24 * 2 ^ 100" using a by (intro mult_strict_right_mono) auto
  also have "\<dots> < (2 ^ 128 :: rat)" by simp
  finally show ?thesis using fl_exact[OF assms(1,2)] by simp
qed

lemma fmul_scaled:
  assumes "\<bar>a * k\<bar> < 2 ^ 24" "- 149 \<le> e" "e \<le> 100" and k: "0 < k"
  shows "fmul (Fin (of_int a * pow2 e)) (Fin (of_int k)) = Fin (of_int (a * k) * pow2 e)"
proof -
  have eq: "(of_int a :: rat) * pow2 e * of_int k = of_int (a * k) * pow2 e" by simp
  have "a = 0 \<or> \<not> (of_int a :: rat) * pow2 e * of_int k = 0"
    using k less_imp_neq[OF pow2_pos, of e] by auto
  then have "fmul (Fin (of_int a * pow2 e)) (Fin (of_int k)) = fl (of_int a * pow2 e * of_int k)"
    using k by (auto simp: fmul_def)
  also have "\<dots> = fl (of_int (a * k) * pow2 e)" by (simp only: eq)
  also have "\<dots> = Fin (of_int (a * k) * pow2 e)" by (rule fl_scaled[OF assms(1-3)])
  finally show ?thesis .
qed

lemma fadd_scaled:
  assumes "\<bar>a + b\<bar> < 2 ^ 24" "- 149 \<le> e" "e \<le> 100"
  shows "fadd (Fin (of_int a * pow2 e)) (Fin (of_int b * pow2 e)) = Fin (of_int (a + b) * pow2 e)"
proof -
  have eq: "(of_int a :: rat) * pow2 e + of_int b * pow2 e = of_int (a + b) * pow2 e"
    by (simp add: algebra_simps)
  have "fadd (Fin (of_int a * pow2 e)) (Fin (of_int b * pow2 e))
      = fl (of_int a * pow2 e + of_int b * pow2 e)"
    by (simp add: fadd_def)
  also have "\<dots> = fl (of_int (a + b) * pow2 e)" by (simp only: eq)
  also have "\<dots> = Fin (of_int (a + b) * pow2 e)" by (rule fl_scaled[OF assms])
  finally show ?thesis .
qed

lemma weighted5_const_scaled:
  assumes m: "\<bar>m\<bar> < 2 ^ 20" and e: "- 149 \<le> e" "e \<le> 100"
  shows "weighted5 (\<lambda>k. Fin (of_int m * pow2 e)) = Fin (of_int (16 * m) * pow2 e)"
proof -
  have k: "float_of_int 1 = Fin (of_int 1)" "float_of_int 4 = Fin (of_int 4)"
    "float_of_int 6 = Fin (of_int 6)"
    using float_of_int_small[of 1] float_of_int_small[of 4] float_of_int_small[of 6] by simp_all
  have m1: "fmul (Fin (of_int m * pow2 e)) (Fin (of_int 1)) = Fin (of_int (m * 1) * pow2 e)"
    by (rule fmul_scaled) (use m e in simp_all)
  have m4: "fmul (Fin (of_int m * pow2 e)) (Fin (of_int 4)) = Fin (of_int (m * 4) * pow2 e)"
    by (rule fmul_scaled) (use m e in simp_all)
  have m6: "fmul (Fin (of_int m * pow2 e)) (Fin (of_int 6)) = Fin (of_int (m * 6) * pow2 e)"
    by (rule fmul_scaled) (use m e in simp_all)
  have z: "(Fin 0 :: f32) = Fin (of_int 0 * pow2 e)" by simp
  have s1: "fadd (Fin (of_int 0 * pow2 e)) (Fin (of_int (m * 1) * pow2 e))
      = Fin (of_int (0 + m * 1) * pow2 e)"
    by (rule fadd_scaled) (use m e in simp_all)
  have s2: "fadd (Fin (of_int (0 + m * 1) * pow2 e)) (Fin (of_int (m * 4) * pow2 e))
      = Fin (of_int (0 + m * 1 + m * 4) * pow2 e)"
    by (rule fadd_scaled) (use m e in simp_all)
  have s3: "fadd (Fin (of_int (0 + m * 1 + m * 4) * pow2 e)) (Fin (of_int (m * 6) * pow2 e))
      = Fin (of_int (0 + m * 1 + m * 4 + m * 6) * pow2 e)"
    by (rule fadd_scaled) (use m e in simp_all)
  have s4: "fadd (Fin (of_int (0 + m * 1 + m * 4 + m * 6) * pow2 e)) (Fin (of_int (m * 4) * pow2 e))
      = Fin (of_int (0 + m * 1 + m * 4 + m * 6 + m * 4) * pow2 e)"
    by (rule fadd_scaled) (use m e in simp_all)
  have s5: "fadd (Fin (of_int (0 + m * 1 + m * 4 + m * 6 + m * 4) * pow2 e))
        (Fin (of_int (m * 1) * pow2 e))
      = Fin (of_int (0 + m * 1 + m * 4 + m * 6 + m * 4 + m * 1) * pow2 e)"
    by (rule fadd_scaled) (use m e in simp_all)
  have "weighted5 (\<lambda>k. Fin (of_int m * pow2 e))
      = Fin (of_int (0 + m * 1 + m * 4 + m * 6 + m * 4 + m * 1) * pow2 e)"
    unfolding weighted5_unfold k m1 m4 m6 z s1 s2 s3 s4 s5 ..
  moreover have "0 + m * 1 + m * 4 + m * 6 + m * 4 + m * 1 = 16 * m" by simp
  ultimately show ?thesis by simp
qed

lemma constant_detail_float:
  assumes c: "constant_plane float_t src (Fin (of_int m * pow2 e))"
    and m: "\<bar>m\<bar> < 2 ^ 16" and e: "- 149 \<le> e" "e \<le> 100"
    and st: "0 \<le> step" "2 * step \<le> getFrameWidth src - 1" "2 * step \<le> getFrameHeight src - 1"
    and xy: "in_plane src x y"
  shows "detail_value float_t src (Fin 0) step x y = Fin 0"
proof -
  have h: "weighted5 (\<lambda>k. Fin (of_int m * pow2 e)) = Fin (of_int (16 * m) * pow2 e)"
    by (rule weighted5_const_scaled) (use m e in simp_all)
  have v: "weighted5 (\<lambda>k. Fin (of_int (16 * m) * pow2 e)) = Fin (of_int (16 * (16 * m)) * pow2 e)"
    by (rule weighted5_const_scaled) (use m e in simp_all)
  have eq: "(of_int (16 * (16 * m)) :: rat) * pow2 e / 256 = of_int m * pow2 e" by simp
  have "fdiv (Fin (of_int (16 * (16 * m)) * pow2 e)) (Fin 256)
      = fl (of_int (16 * (16 * m)) * pow2 e / 256)"
    by (simp add: fdiv_def)
  also have "\<dots> = fl (of_int m * pow2 e)" by (simp only: eq)
  also have "\<dots> = Fin (of_int m * pow2 e)" by (rule fl_scaled) (use m e in simp_all)
  finally have d: "fdiv (Fin (of_int (16 * (16 * m)) * pow2 e)) (Fin 256) = Fin (of_int m * pow2 e)" .
  have z: "fl 0 = Fin 0" by (simp add: fl_def)
  show ?thesis
    unfolding constant_detail[OF c st xy] float_t_simps h v d
    by (simp add: fsub_def fadd_def z)
qed

lemma flat_float_residue:
  "fadd (fsub (Fin (4473925 / 4194304))
      (fdiv (weighted5 (\<lambda>k. weighted5 (\<lambda>k. Fin (4473925 / 4194304)))) (Fin 256))) (Fin 0)
   = Fin (- 1 / 8388608)"
proof -
  have t1: "weighted5 (\<lambda>k. Fin (4473925 / 4194304)) = Fin (8947851 / 524288)"
    by code_simp
  have t2: "weighted5 (\<lambda>k. Fin (8947851 / 524288)) = Fin (8947851 / 32768)"
    by code_simp
  have t3: "fadd (fsub (Fin (4473925 / 4194304)) (fdiv (Fin (8947851 / 32768)) (Fin 256))) (Fin 0)
      = Fin (- 1 / 8388608)"
    by code_simp
  show ?thesis unfolding t1 t2 t3 ..
qed

lemma constant_uint_extract:
  assumes f: "integer_format W fi" "uint_plane W src" and c: "constant_plane (uint_t W) src c"
    and d: "plane_ok (uint_t W) dst" "same_size src dst" and t: "taps_in_bounds src radius"
  shows "\<exists>D. process_extract_plane (uint_t W) src dst radius fi = Inr D \<and> same_layout D dst
         \<and> (\<forall>x y. in_plane src x y \<longrightarrow>
               pixel_at (uint_t W) D x y = 2 ^ nat (bitsPerSample fi - 1))"
proof -
  note u = uint_plane_16[OF f]
  have st: "0 \<le> dilation_step radius" "2 * dilation_step radius \<le> getFrameWidth src - 1"
    "2 * dilation_step radius \<le> getFrameHeight src - 1"
    using t dilation_step_pos[of radius] by (auto simp: taps_in_bounds_def)
  have b1: "1 \<le> bitsPerSample fi" using u(3) by simp
  from extract_int_plane[OF u(1) d t u(3-5) u(2)]
  obtain D where D: "process_extract_plane (uint_t W) src dst radius fi = Inr D"
    "same_layout D dst"
    "\<forall>x y. in_plane src x y \<longrightarrow>
       pixel_at (uint_t W) D x y = Extract_int (uint_t W) fi src (dilation_step radius) x y"
    by blast
  have "pixel_at (uint_t W) D x y = 2 ^ nat (bitsPerSample fi - 1)" if "in_plane src x y" for x y
    using D(3) that constant_Extract_int[OF c st that b1] by simp
  with D(1,2) show ?thesis by blast
qed

lemma constant_float_extract:
  assumes p: "plane_ok float_t src"
    and c: "constant_plane float_t src (Fin (of_int m * pow2 e))"
    and m: "\<bar>m\<bar> < 2 ^ 16" and e: "- 149 \<le> e" "e \<le> 100"
    and d: "plane_ok float_t dst" "same_size src dst" and t: "taps_in_bounds src radius"
  shows "\<exists>D. process_extract_plane float_t src dst radius fi = Inr D \<and> same_layout D dst
         \<and> (\<forall>x y. in_plane src x y \<longrightarrow> pixel_at float_t D x y = Fin 0)"
proof -
  have st: "0 \<le> dilation_step radius" "2 * dilation_step radius \<le> getFrameWidth src - 1"
    "2 * dilation_step radius \<le> getFrameHeight src - 1"
    using t dilation_step_pos[of radius] by (auto simp: taps_in_bounds_def)
  from extract_float_plane[OF p d t, of fi]
  obtain D where D: "process_extract_plane float_t src dst radius fi = Inr D"
    "same_layout D dst"
    "\<forall>x y. in_plane src x y \<longrightarrow>
       pixel_at float_t D x y = detail_value float_t src (Fin 0) (dilation_step radius) x y"
    by blast
  have "pixel_at float_t D x y = Fin 0" if "in_plane src x y" for x y
    using D(3) that constant_detail_float[OF c m e st that] by simp
  with D(1,2) show ?thesis by blast
qed

lemma large_constant_overflows:
  "fadd (fsub (Fin (2 ^ 120))
      (fdiv (weighted5 (\<lambda>k. weighted5 (\<lambda>k. Fin (2 ^ 120)))) (Fin 256))) (Fin 0)
   = NonFinite"
proof -
  have t1: "weighted5 (\<lambda>k. Fin (2 ^ 120)) = Fin (2 ^ 124)" by code_simp
  have t2: "weighted5 (\<lambda>k. Fin (2 ^ 124)) = NonFinite" by code_simp
  have t3: "fadd (fsub (Fin (2 ^ 120)) (fdiv NonFinite (Fin 256))) (Fin 0) = NonFinite"
    by (simp add: fdiv_def fsub_def fadd_def)
  show ?thesis unfolding t1 t2 t3 ..
qed

lemma negative_zero_residue:
  "fadd (fsub NegZero (fdiv (weighted5 (\<lambda>k. weighted5 (\<lambda>k. NegZero))) (Fin 256))) (Fin 0)
   = Fin 0"
proof -
  have t1: "weighted5 (\<lambda>k. NegZero) = Fin 0" by code_simp
  have t2: "weighted5 (\<lambda>k. Fin 0) = Fin 0" by code_simp
  have t3: "fadd (fsub NegZero (fdiv (Fin 0) (Fin 256))) (Fin 0) = Fin 0" by code_simp
  show ?thesis unfolding t1 t2 t3 ..
qed

lemma constant_negative_zero_extract:
  assumes p: "plane_ok float_t src"
    and c: "constant_plane float_t src NegZero"
    and d: "plane_ok float_t dst" "same_size src dst" and t: "taps_in_bounds src radius"
  shows "\<exists>D. process_extract_plane float_t src dst radius fi = Inr D \<and> same_layout D dst
         \<and> (\<forall>x y. in_plane src x y \<longrightarrow> pixel_at float_t D x y = Fin 0)"
proof -
  have st: "0 \<le> dilation_step radius" "2 * dilation_step radius \<le> getFrameWidth src - 1"
    "2 * dilation_step radius \<le> getFrameHeight src - 1"
    using t dilation_step_pos[of radius] by (auto simp: taps_in_bounds_def)
  from extract_float_plane[OF p d t, of fi]
  obtain D where D: "process_extract_plane float_t src dst radius fi = Inr D"
    "same_layout D dst"
    "\<forall>x y. in_plane src x y \<longrightarrow>
       pixel_at float_t D x y = detail_value float_t src (Fin 0) (dilation_step radius) x y"
    by blast
  have "pixel_at float_t D x y = Fin 0" if "in_plane src x y" for x y
    using D(3) that constant_detail[OF c st that, of "Fin 0"] negative_zero_residue by simp
  with D(1,2) show ?thesis by blast
qed

lemma example_format8_facts:
  "integer_format 8 example_format8" "bitsPerSample example_format8 = 8"
  by (simp_all add: integer_format_def example_format8_def)

lemma scenario_extract:
  "process_extract_plane uint8_t (flat_plane uint8_t 4 4 128) (flat_plane uint8_t 4 4 0) 1
     example_format8 = Inr (flat_plane uint8_t 4 4 128)"
proof -
  have sz: "0 < sizeof (uint_t 8)" by simp
  have up: "uint_plane 8 (flat_plane (uint_t 8) 4 4 128)" by (rule flat_plane_uint) simp_all
  have pd: "plane_ok (uint_t 8) (flat_plane (uint_t 8) 4 4 0)" by (rule flat_plane_ok) simp_all
  have tb: "taps_in_bounds (flat_plane (uint_t 8) 4 4 (128::nat)) 1"
    by (simp add: taps_in_bounds_def dilation_step_def)
  from constant_uint_extract[OF example_format8_facts(1) up flat_plane_constant[OF sz] pd
      flat_plane_size tb]
  obtain D where D: "process_extract_plane (uint_t 8) (flat_plane (uint_t 8) 4 4 128)
        (flat_plane (uint_t 8) 4 4 0) 1 example_format8 = Inr D"
      "same_layout D (flat_plane (uint_t 8) 4 4 0)"
      "\<forall>x y. in_plane (flat_plane (uint_t 8) 4 4 (128::nat)) x y \<longrightarrow>
         pixel_at (uint_t 8) D x y = 2 ^ nat (bitsPerSample example_format8 - 1)"
    by blast
  have "\<forall>x y. in_plane (flat_plane (uint_t 8) 4 4 (0::nat)) x y \<longrightarrow> pixel_at (uint_t 8) D x y = 128"
    using D(3) by (simp add: in_plane_def example_format8_facts(2))
  from flat_plane_eqI[OF D(2) sz _ _ this] have "D = flat_plane (uint_t 8) 4 4 128" by simp
  with D(1) show ?thesis by (simp add: uint8_t_def)
qed

lemma Replace_int_8: "b + d \<ge> 128 \<Longrightarrow> b + d \<le> 383 \<Longrightarrow> Replace_int 8 b d = b + d - 128"
proof -
  assume a: "b + d \<ge> 128" "b + d \<le> 383"
  define i where "i = int b + int d - 128"
  have ib: "0 \<le> i" "i \<le> 255" using a by (simp_all add: i_def)
  have "(of_int (int b) + of_int (int d) - 2 ^ nat (8 - 1) :: rat) = of_int i"
    by (simp add: i_def)
  then have "Replace_int 8 b d = nat (quantize 8 (of_int i))"
    by (simp only: Replace_int_def)
  also have "\<dots> = nat i" using ib by (simp add: quantize_def Let_def)
  finally show ?thesis using a by (simp add: i_def)
qed

lemma scenario_replace:
  "ProcessReplacePlane uint8_t (flat_plane uint8_t 4 4 128) (flat_plane uint8_t 4 4 128)
     (flat_plane uint8_t 4 4 0) example_format8 = Inr (flat_plane uint8_t 4 4 128)"
proof -
  have sz: "0 < sizeof (uint_t 8)" by simp
  have up: "uint_plane 8 (flat_plane (uint_t 8) 4 4 128)" by (rule flat_plane_uint) simp_all
  note u = uint_plane_16[OF example_format8_facts(1) up]
  have pd: "plane_ok (uint_t 8) (flat_plane (uint_t 8) 4 4 0)" by (rule flat_plane_ok) simp_all
  from replace_int_plane[OF pd flat_plane_layout flat_plane_layout u(3-5) u(2) u(2)]
  obtain R where R: "ProcessReplacePlane (uint_t 8) (flat_plane (uint_t 8) 4 4 128)
        (flat_plane (uint_t 8) 4 4 128) (flat_plane (uint_t 8) 4 4 0) example_format8 = Inr R"
      "same_layout R (flat_plane (uint_t 8) 4 4 0)"
      "\<forall>x y. in_plane (flat_plane (uint_t 8) 4 4 (0::nat)) x y \<longrightarrow>
         pixel_at (uint_t 8) R x y
           = Replace_int (bitsPerSample example_format8)
               (pixel_at (uint_t 8) (flat_plane (uint_t 8) 4 4 128) x y)
               (pixel_at (uint_t 8) (flat_plane (uint_t 8) 4 4 128) x y)"
    by blast
  have "pixel_at (uint_t 8) R x y = 128" if "in_plane (flat_plane (uint_t 8) 4 4 (0::nat)) x y" for x y
  proof -
    have ip: "in_plane (flat_plane (uint_t 8) 4 4 (128::nat)) x y" using that by (simp add: in_plane_def)
    show ?thesis
      using R(3) that flat_plane_pixel[OF sz ip] Replace_int_8[of 128 128]
      by (simp add: example_format8_facts(2))
  qed
  then have "\<forall>x y. in_plane (flat_plane (uint_t 8) 4 4 (0::nat)) x y \<longrightarrow> pixel_at (uint_t 8) R x y = 128"
    by blast
  from flat_plane_eqI[OF R(2) sz _ _ this] have "R = flat_plane (uint_t 8) 4 4 128" by simp
  with R(1) show ?thesis by (simp add: uint8_t_def)
qed




section \<open>The inverse law on integer planes\<close>

lemma round_half_away_near:
  "of_int (round_half_away q) \<le> q + 1 / 2" "q - 1 / 2 \<le> of_int (round_half_away q)"
proof -
  have "of_int (round_half_away q) \<le> q + 1 / 2 \<and> q - 1 / 2 \<le> of_int (round_half_away q)"
  proof (cases "0 \<le> q")
    case True
    then have e: "round_half_away q = \<lfloor>q + 1 / 2\<rfloor>" by (simp add: round_half_away_def)
    show ?thesis unfolding e using floor_correct[of "q + 1 / 2"] by linarith
  next
    case False
    then have e: "round_half_away q = - \<lfloor>- q + 1 / 2\<rfloor>" by (simp add: round_half_away_def)
    show ?thesis unfolding e of_int_minus using floor_correct[of "- q + 1 / 2"] by linarith
  qed
  then show "of_int (round_half_away q) \<le> q + 1 / 2" "q - 1 / 2 \<le> of_int (round_half_away q)"
    by simp_all
qed

lemma quantize_of_int:
  "quantize bits (of_int i) = (if i < 0 then 0 else if 2 ^ nat bits - 1 < i then 2 ^ nat bits - 1 else i)"
  by (simp add: quantize_def Let_def)

lemma int_le_from_rat: "(of_int a :: rat) \<le> of_int b + 1 / 2 \<Longrightarrow> a \<le> b"
proof -
  assume "(of_int a :: rat) \<le> of_int b + 1 / 2"
  then have "(of_int a :: rat) < of_int (b + 1)" by simp
  then have "a < b + 1" by (simp only: of_int_less_iff)
  then show ?thesis by simp
qed

lemma inverse_arith:
  fixes s V N :: int
  assumes N: "1 \<le> N" and M: "(2::int) ^ nat bits - 1 = 2 * N - 1"
    and s: "0 \<le> s" "s \<le> 2 * N - 1" and V: "0 \<le> V" "V \<le> 256 * (2 * N - 1)"
  defines "D \<equiv> quantize bits (of_int s - of_int V / 256 + of_int N)"
  defines "L \<equiv> max 0 (min (2 * N - 1) (s - D + N))"
  shows "0 \<le> D \<and> D \<le> 2 * N - 1 \<and> 0 \<le> L \<and> L \<le> 2 * N - 1
    \<and> quantize bits (of_int (L + D - N)) = s"
proof -
  define B :: rat where "B = of_int V / 256"
  define d0 where "d0 = round_half_away (of_int s - B + of_int N)"
  have "(of_int 0 :: rat) \<le> of_int V" using V(1) by (simp only: of_int_le_iff)
  then have B0: "0 \<le> B" by (simp add: B_def)
  have "(of_int V :: rat) \<le> of_int (256 * (2 * N - 1))" using V(2) by (simp only: of_int_le_iff)
  then have BM: "B \<le> of_int (2 * N - 1)" by (simp add: B_def)
  have up: "of_int d0 \<le> of_int s - B + of_int N + 1 / 2"
    and lo: "of_int s - B + of_int N - 1 / 2 \<le> of_int d0"
    unfolding d0_def using round_half_away_near[of "of_int s - B + of_int N"] by simp_all
  have u1: "(of_int d0 :: rat) \<le> of_int (s + N) + 1 / 2" using up B0 by simp
  have u2: "(of_int (s - N + 1) :: rat) \<le> of_int d0 + 1 / 2" using lo BM by simp
  have du: "d0 \<le> s + N" using int_le_from_rat[OF u1] .
  have dl: "s - N + 1 \<le> d0" using int_le_from_rat[OF u2] .
  have Dd: "D = (if d0 < 0 then 0 else if 2 * N - 1 < d0 then 2 * N - 1 else d0)"
    unfolding D_def quantize_def Let_def d0_def B_def M by simp
  consider "d0 < 0" | "2 * N - 1 < d0" | "0 \<le> d0" "d0 \<le> 2 * N - 1" by linarith
  then show ?thesis
  proof cases
    case 1
    then have D0: "D = 0" by (simp add: Dd)
    have "s \<le> N - 2" using dl 1 by simp
    then have "L = s + N" using s N by (simp add: L_def D0)
    then show ?thesis using s N D0 \<open>s \<le> N - 2\<close> by (simp add: quantize_of_int M)
  next
    case 2
    then have D0: "D = 2 * N - 1" using N by (simp add: Dd)
    have "N \<le> s" using du 2 by simp
    then have "L = s - N + 1" using s N by (simp add: L_def D0)
    then show ?thesis using s N D0 \<open>N \<le> s\<close> by (simp add: quantize_of_int M)
  next
    case 3
    then have D0: "D = d0" by (simp add: Dd)
    have l1: "(of_int (s - d0 + N) :: rat) \<le> of_int (2 * N - 1) + 1 / 2" using lo BM by simp
    have l2: "(of_int 0 :: rat) \<le> of_int (s - d0 + N) + 1 / 2" using up B0 by simp
    have b1: "s - d0 + N \<le> 2 * N - 1" using int_le_from_rat[OF l1] .
    have b2: "0 \<le> s - d0 + N" using int_le_from_rat[OF l2] .
    have "L = s - d0 + N" using b1 b2 by (simp add: L_def D0)
    then show ?thesis using s N D0 3 b1 b2 by (simp add: quantize_of_int M)
  qed
qed

lemma same_layout_sym: "same_layout p q \<Longrightarrow> same_layout q p"
  by (simp add: same_layout_def same_size_def)

lemma same_layout_trans: "same_layout p q \<Longrightarrow> same_layout q r \<Longrightarrow> same_layout p r"
  by (simp add: same_layout_def same_size_def)

lemma same_layout_size: "same_layout p q \<Longrightarrow> same_size p q"
  by (simp add: same_layout_def)

lemma in_plane_index:
  assumes "plane_ok T p" "in_plane p x y"
  shows "0 \<le> (y * (getStride p div sizeof T)) + x"
    "nat ((y * (getStride p div sizeof T)) + x) < length (getPtr p)"
proof -
  have g: "0 \<le> getFrameWidth p" "getFrameWidth p \<le> getStride p div sizeof T"
    "(getStride p div sizeof T) * getFrameHeight p \<le> int (length (getPtr p))"
    using assms(1) by (simp_all add: plane_ok_def)
  have xy: "0 \<le> x" "x < getFrameWidth p" "0 \<le> y" "y < getFrameHeight p"
    using assms(2) by (simp_all add: in_plane_def)
  from row_start_bounds[OF g xy(3,4)] xy(1,2)
  show "0 \<le> (y * (getStride p div sizeof T)) + x"
    "nat ((y * (getStride p div sizeof T)) + x) < length (getPtr p)" by auto
qed

lemma map2_plane:
  assumes "plane_ok T S" "same_layout D S"
  shows "same_layout (S\<lparr>getPtr := map2 f (getPtr S) (getPtr D)\<rparr>) S"
    "in_plane S x y \<Longrightarrow>
       pixel_at T (S\<lparr>getPtr := map2 f (getPtr S) (getPtr D)\<rparr>) x y
         = f (pixel_at T S x y) (pixel_at T D x y)"
proof -
  have g: "getStride D = getStride S" "length (getPtr D) = length (getPtr S)"
    using assms(2) by (simp_all add: same_layout_def)
  show "same_layout (S\<lparr>getPtr := map2 f (getPtr S) (getPtr D)\<rparr>) S"
    using g by (simp add: same_layout_def same_size_def)
  assume "in_plane S x y"
  from in_plane_index(2)[OF assms(1) this]
  show "pixel_at T (S\<lparr>getPtr := map2 f (getPtr S) (getPtr D)\<rparr>) x y
         = f (pixel_at T S x y) (pixel_at T D x y)"
    using g by (simp add: pixel_at_def)
qed

lemma pow2_nat_double: "1 \<le> bits \<Longrightarrow> (2::int) ^ nat bits - 1 = 2 * 2 ^ nat (bits - 1) - 1"
proof -
  assume "1 \<le> bits"
  then have "nat bits = Suc (nat (bits - 1))" by simp
  then show ?thesis by simp
qed

lemma in_plane_layout: "same_layout p q \<Longrightarrow> in_plane p x y = in_plane q x y"
  by (simp add: same_layout_def same_size_def in_plane_def)

lemma reconstruct_int:
  assumes f: "integer_format W fi" "uint_plane W S"
    and sb: "samples_below (uint_t W) S (2 ^ nat (bitsPerSample fi))"
    and d1: "same_layout dst1 S" and d2: "same_layout dst2 S" and t: "taps_in_bounds S radius"
  shows "\<exists>R. reconstruct (uint_t W) fi (MakeDiff_int fi) S dst1 dst2 radius = Inr R
         \<and> same_layout R dst2
         \<and> (\<forall>x y. in_plane S x y \<longrightarrow> pixel_at (uint_t W) R x y = pixel_at (uint_t W) S x y)"
proof -
  define T where "T = uint_t W"
  define bits where "bits = bitsPerSample fi"
  define N :: int where "N = 2 ^ nat (bits - 1)"
  define step where "step = dilation_step radius"
  note u = uint_plane_16[OF f, folded T_def bits_def]
  have tf: "to_float T = (\<lambda>v. float_of_int (int v))" by (simp add: T_def)
  have M: "(2::int) ^ nat bits - 1 = 2 * N - 1" using pow2_nat_double[of bits] u(3) by (simp add: N_def)
  have Nb: "1 \<le> N" "N \<le> 32768" using neutral_bounds[OF u(3,4)] by (simp_all add: N_def)
  have M16: "2 * N \<le> 2 ^ 16" using Nb by simp
  have st: "0 \<le> step" "2 * step \<le> getFrameWidth S - 1" "2 * step \<le> getFrameHeight S - 1"
    using t dilation_step_pos[of radius] by (auto simp: taps_in_bounds_def step_def)
  have p1: "plane_ok T dst1" and p2: "plane_ok T dst2"
    using plane_ok_layout[OF u(1)] d1 d2 by blast+
  have ss1: "same_size S dst1" using d1 by (simp add: same_layout_def same_size_def)
  from extract_int_plane[OF u(1)[unfolded T_def] p1[unfolded T_def] ss1 t
      u(3-5)[unfolded bits_def] u(2)[unfolded T_def]]
  obtain D where D: "process_extract_plane T S dst1 radius fi = Inr D" "same_layout D dst1"
    "\<forall>x y. in_plane S x y \<longrightarrow> pixel_at T D x y = Extract_int T fi S step x y"
    unfolding T_def step_def by blast
  have DS: "same_layout D S" using same_layout_trans[OF D(2) d1] .
  define L where "L = MakeDiff_int fi S D"
  have LS: "same_layout L S" unfolding L_def MakeDiff_int_def by (rule map2_plane(1)[OF u(1) DS])
  have px: "0 \<le> int (pixel_at T D x y) \<and> int (pixel_at T D x y) \<le> 2 * N - 1
      \<and> int (pixel_at T L x y) \<le> 2 * N - 1
      \<and> quantize bits (of_int (int (pixel_at T L x y) + int (pixel_at T D x y) - N))
          = int (pixel_at T S x y)"
    if ip: "in_plane S x y" for x y
  proof -
    define s where "s = int (pixel_at T S x y)"
    define V where "V = blur_sum T S step x y"
    have xy: "0 \<le> x" "x < getFrameWidth S" "0 \<le> y" "y < getFrameHeight S"
      using ip by (simp_all add: in_plane_def)
    have "int (pixel_at T S x y) < 2 ^ nat bits"
      using sb[unfolded samples_below_def, rule_format, of x y] xy
      unfolding T_def bits_def by blast
    then have s: "0 \<le> s" "s \<le> 2 * N - 1"
      using M unfolding s_def by linarith+
    have b16: "(2::int) ^ nat bits \<le> 2 ^ 16" using M M16 by simp
    from vertical_int[OF sb[folded T_def bits_def] b16 tf st xy]
    have V: "0 \<le> V" "V \<le> 256 * (2 * N - 1)" using M by (simp_all add: V_def)
    note ia = inverse_arith[OF Nb(1) M s V]
    define D' where "D' = quantize bits (of_int s - of_int V / 256 + of_int N)"
    define L' where "L' = max 0 (min (2 * N - 1) (s - D' + N))"
    have ia': "0 \<le> D'" "D' \<le> 2 * N - 1" "0 \<le> L'" "L' \<le> 2 * N - 1"
      "quantize bits (of_int (L' + D' - N)) = s"
      using ia unfolding D'_def L'_def by simp_all
    have "pixel_at T D x y = nat D'"
      using D(3) ip by (simp add: Extract_int_def D'_def s_def V_def bits_def N_def)
    then have dD: "int (pixel_at T D x y) = D'" using ia'(1) by simp
    have "pixel_at T L x y = nat (max 0 (min (2 ^ nat bits - 1) (s - int (pixel_at T D x y) + N)))"
      unfolding L_def MakeDiff_int_def
      using map2_plane(2)[OF u(1) DS ip] by (simp add: s_def bits_def N_def)
    then have "pixel_at T L x y = nat L'" by (simp add: dD M L'_def)
    then have dL: "int (pixel_at T L x y) = L'" using ia'(3) by simp
    show ?thesis unfolding dD dL s_def[symmetric] using ia' by simp
  qed
  have sbD: "samples_below T D (2 ^ 16)"
    unfolding samples_below_def
    using px M16 in_plane_layout[OF DS] by (fastforce simp: in_plane_def)
  have sbL: "samples_below T L (2 ^ 16)"
    unfolding samples_below_def
    using px M16 in_plane_layout[OF LS] by (fastforce simp: in_plane_def)
  from replace_int_plane[OF p2[unfolded T_def] _ _ u(3-5)[unfolded bits_def]
      sbL[unfolded T_def] sbD[unfolded T_def]]
    same_layout_trans[OF LS same_layout_sym[OF d2]] same_layout_trans[OF DS same_layout_sym[OF d2]]
  obtain R where R: "ProcessReplacePlane T L D dst2 fi = Inr R" "same_layout R dst2"
    "\<forall>x y. in_plane dst2 x y \<longrightarrow>
       pixel_at T R x y = Replace_int bits (pixel_at T L x y) (pixel_at T D x y)"
    unfolding T_def bits_def by blast
  have "pixel_at T R x y = pixel_at T S x y" if ip: "in_plane S x y" for x y
  proof -
    have "in_plane dst2 x y" using ip in_plane_layout[OF d2] by simp
    then have "pixel_at T R x y = Replace_int bits (pixel_at T L x y) (pixel_at T D x y)"
      using R(3) by simp
    also have "\<dots> = nat (quantize bits (of_int (int (pixel_at T L x y) + int (pixel_at T D x y) - N)))"
      by (simp add: Replace_int_def N_def)
    also have "\<dots> = pixel_at T S x y" using px[OF ip] by simp
    finally show ?thesis .
  qed
  moreover have "reconstruct T fi (MakeDiff_int fi) S dst1 dst2 radius = Inr R"
    using D(1) R(1) by (simp add: reconstruct_def L_def)
  ultimately show ?thesis using R(2) unfolding T_def by blast
qed

lemma packed_uint_plane:
  assumes "0 \<le> w" "0 \<le> h" "8 \<le> W" "w * h = int (length xs)" "\<forall>v\<in>set xs. int v < b"
  shows "plane_ok (uint_t W) (packed_plane (uint_t W) w h xs)"
    "samples_below (uint_t W) (packed_plane (uint_t W) w h xs) b"
proof -
  have s: "0 < sizeof (uint_t W)" using assms(3) by simp
  show "plane_ok (uint_t W) (packed_plane (uint_t W) w h xs)"
    using assms s by (intro packed_plane_ok) auto
  show "samples_below (uint_t W) (packed_plane (uint_t W) w h xs) b"
    unfolding samples_below_def
  proof (intro allI impI)
    fix x y
    assume "0 \<le> x \<and> x < getFrameWidth (packed_plane (uint_t W) w h xs)
      \<and> 0 \<le> y \<and> y < getFrameHeight (packed_plane (uint_t W) w h xs)"
    then have xy: "0 \<le> x" "x < w" "0 \<le> y" "y < h" by simp_all
    from flat_index[OF this] assms(4) have "nat ((y * w) + x) < length xs" by simp
    then have "xs ! nat ((y * w) + x) \<in> set xs" by (rule nth_mem)
    then show "int (pixel_at (uint_t W) (packed_plane (uint_t W) w h xs) x y) < b"
      using assms(5) packed_pixel_at[OF s, of w h xs x y] by simp
  qed
qed

lemma example_samples_plane:
  "uint_plane 8 (packed_plane (uint_t 8) 5 5 example_samples)"
  "samples_below (uint_t 8) (packed_plane (uint_t 8) 5 5 example_samples)
     (2 ^ nat (bitsPerSample example_format8))"
  "same_layout (flat_plane (uint_t 8) 5 5 0) (packed_plane (uint_t 8) 5 5 example_samples)"
  "taps_in_bounds (packed_plane (uint_t 8) 5 5 example_samples) 2"
  "in_plane (packed_plane (uint_t 8) 5 5 example_samples) 3 1"
proof -
  have b: "\<forall>v\<in>set example_samples. int v < 256" by (simp add: example_samples_def)
  have l: "(5::int) * 5 = int (length example_samples)" by (simp add: example_samples_def)
  note p = packed_uint_plane[OF _ _ _ l b, of 8]
  show "uint_plane 8 (packed_plane (uint_t 8) 5 5 example_samples)"
    using p by (simp add: uint_plane_def)
  show "samples_below (uint_t 8) (packed_plane (uint_t 8) 5 5 example_samples)
     (2 ^ nat (bitsPerSample example_format8))"
    using p(2) by (simp add: example_format8_def)
  show "same_layout (flat_plane (uint_t 8) 5 5 0) (packed_plane (uint_t 8) 5 5 example_samples)"
    by (simp add: same_layout_def same_size_def flat_plane_def packed_plane_def
        example_samples_def)
  show "taps_in_bounds (packed_plane (uint_t 8) 5 5 example_samples) 2"
    by (simp add: taps_in_bounds_def dilation_step_def)
  show "in_plane (packed_plane (uint_t 8) 5 5 example_samples) 3 1"
    by (simp add: in_plane_def)
qed

lemma map2_replicate: "map2 f (replicate n a) (replicate n b) = replicate n (f a b)"
  by (induction n) simp_all

lemma MakeLowBand_int_flat:
  "MakeLowBand_int (flat_plane T w h a) (flat_plane T w h b) = flat_plane T w h (a - b)"
  by (simp add: MakeLowBand_int_def flat_plane_def packed_plane_def map2_replicate)

lemma scenario_replace_low:
  "ProcessReplacePlane uint8_t (flat_plane uint8_t 4 4 0) (flat_plane uint8_t 4 4 128)
     (flat_plane uint8_t 4 4 0) example_format8 = Inr (flat_plane uint8_t 4 4 0)"
proof -
  have sz: "0 < sizeof (uint_t 8)" by simp
  have u0: "uint_plane 8 (flat_plane (uint_t 8) 4 4 0)" by (rule flat_plane_uint) simp_all
  have u1: "uint_plane 8 (flat_plane (uint_t 8) 4 4 128)" by (rule flat_plane_uint) simp_all
  note a = uint_plane_16[OF example_format8_facts(1) u0]
  note b = uint_plane_16[OF example_format8_facts(1) u1]
  from replace_int_plane[OF a(1) flat_plane_layout flat_plane_layout a(3-5) a(2) b(2)]
  obtain R where R: "ProcessReplacePlane (uint_t 8) (flat_plane (uint_t 8) 4 4 0)
        (flat_plane (uint_t 8) 4 4 128) (flat_plane (uint_t 8) 4 4 0) example_format8 = Inr R"
      "same_layout R (flat_plane (uint_t 8) 4 4 0)"
      "\<forall>x y. in_plane (flat_plane (uint_t 8) 4 4 (0::nat)) x y \<longrightarrow>
         pixel_at (uint_t 8) R x y
           = Replace_int (bitsPerSample example_format8)
               (pixel_at (uint_t 8) (flat_plane (uint_t 8) 4 4 0) x y)
               (pixel_at (uint_t 8) (flat_plane (uint_t 8) 4 4 128) x y)"
    by blast
  have "pixel_at (uint_t 8) R x y = 0" if ip: "in_plane (flat_plane (uint_t 8) 4 4 (0::nat)) x y" for x y
  proof -
    have ip': "in_plane (flat_plane (uint_t 8) 4 4 (128::nat)) x y" using ip by (simp add: in_plane_def)
    have "pixel_at (uint_t 8) R x y = Replace_int 8 0 128"
      using R(3) ip flat_plane_pixel[OF sz ip] flat_plane_pixel[OF sz ip']
      by (simp add: example_format8_facts(2))
    also have "\<dots> = 0" using Replace_int_8[of 0 128] by simp
    finally show ?thesis .
  qed
  then have "\<forall>x y. in_plane (flat_plane (uint_t 8) 4 4 (0::nat)) x y \<longrightarrow> pixel_at (uint_t 8) R x y = 0"
    by blast
  from flat_plane_eqI[OF R(2) sz _ _ this] have "R = flat_plane (uint_t 8) 4 4 0" by simp
  with R(1) show ?thesis by (simp add: uint8_t_def)
qed

lemma flat_plane_neq: "flat_plane uint8_t 4 4 (0::nat) \<noteq> flat_plane uint8_t 4 4 128"
proof
  assume "flat_plane uint8_t 4 4 (0::nat) = flat_plane uint8_t 4 4 128"
  then have "getPtr (flat_plane uint8_t 4 4 (0::nat)) = getPtr (flat_plane uint8_t 4 4 (128::nat))"
    by simp
  then show False by (simp add: flat_plane_def)
qed

text \<open>
  \<^bold>\<open>C2\<close> (as amended). For every plane \<open>S\<close> of an accepted integer format whose samples lie
  below \<open>2^bits\<close>, of at most \<open>2^31 - 1\<close> samples, and every radius whose taps stay in bounds
  (\<open>taps_in_bounds\<close>), the recombination of the low
  band with the detail, \<open>Replace(MakeLowBand(S), Extract(S, radius))\<close>, returns \<open>S\<close> at every
  pixel, when the low band is the difference around the neutral value,
  \<open>clamp(S - Extract(S, radius) + 2^(bits-1), 0, 2^bits - 1)\<close>, as \<^verbatim>\<open>std.MakeDiff\<close> computes
  it. The roundings and the clamps of the three steps cancel.
\<close>

theorem inverse_law_integer:
  "integer_format W fi \<and> uint_plane W S
     \<and> samples_below (uint_t W) S (2 ^ nat (bitsPerSample fi))
     \<and> same_layout dst1 S \<and> same_layout dst2 S \<and> taps_in_bounds S radius \<longrightarrow>
   (\<exists>R. reconstruct (uint_t W) fi (MakeDiff_int fi) S dst1 dst2 radius = Inr R
      \<and> same_layout R dst2
      \<and> (\<forall>x y. in_plane S x y \<longrightarrow> pixel_at (uint_t W) R x y = pixel_at (uint_t W) S x y))"
proof (intro impI, elim conjE)
  assume "integer_format W fi" "uint_plane W S"
    "samples_below (uint_t W) S (2 ^ nat (bitsPerSample fi))"
    "same_layout dst1 S" "same_layout dst2 S" "taps_in_bounds S radius"
  then show "\<exists>R. reconstruct (uint_t W) fi (MakeDiff_int fi) S dst1 dst2 radius = Inr R
      \<and> same_layout R dst2
      \<and> (\<forall>x y. in_plane S x y \<longrightarrow> pixel_at (uint_t W) R x y = pixel_at (uint_t W) S x y)"
    by (rule reconstruct_int)
qed

theorem inverse_law_integer_witness:
  "(integer_format 8 example_format8
     \<and> uint_plane 8 (packed_plane (uint_t 8) 5 5 example_samples)
     \<and> samples_below (uint_t 8) (packed_plane (uint_t 8) 5 5 example_samples)
         (2 ^ nat (bitsPerSample example_format8))
     \<and> same_layout (flat_plane (uint_t 8) 5 5 0) (packed_plane (uint_t 8) 5 5 example_samples)
     \<and> taps_in_bounds (packed_plane (uint_t 8) 5 5 example_samples) 2
     \<and> in_plane (packed_plane (uint_t 8) 5 5 example_samples) 3 1)
   \<and> (\<exists>R. reconstruct (uint_t 8) example_format8 (MakeDiff_int example_format8)
             (packed_plane (uint_t 8) 5 5 example_samples)
             (flat_plane (uint_t 8) 5 5 0) (flat_plane (uint_t 8) 5 5 0) 2 = Inr R
        \<and> pixel_at (uint_t 8) R 3 1
            = pixel_at (uint_t 8) (packed_plane (uint_t 8) 5 5 example_samples) 3 1)"
proof -
  note e = example_samples_plane
  note f = example_format8_facts(1)
  from inverse_law_integer[of 8 example_format8 "packed_plane (uint_t 8) 5 5 example_samples"
      "flat_plane (uint_t 8) 5 5 0" "flat_plane (uint_t 8) 5 5 0" 2, rule_format]
    f e(1) e(2) e(3) e(4)
  obtain R where R: "reconstruct (uint_t 8) example_format8 (MakeDiff_int example_format8)
             (packed_plane (uint_t 8) 5 5 example_samples)
             (flat_plane (uint_t 8) 5 5 0) (flat_plane (uint_t 8) 5 5 0) 2 = Inr R"
    "\<forall>x y. in_plane (packed_plane (uint_t 8) 5 5 example_samples) x y \<longrightarrow>
       pixel_at (uint_t 8) R x y
         = pixel_at (uint_t 8) (packed_plane (uint_t 8) 5 5 example_samples) x y"
    by blast
  from R(2)[rule_format, OF e(5)] R(1)
  have "\<exists>R. reconstruct (uint_t 8) example_format8 (MakeDiff_int example_format8)
             (packed_plane (uint_t 8) 5 5 example_samples)
             (flat_plane (uint_t 8) 5 5 0) (flat_plane (uint_t 8) 5 5 0) 2 = Inr R
        \<and> pixel_at (uint_t 8) R 3 1
            = pixel_at (uint_t 8) (packed_plane (uint_t 8) 5 5 example_samples) 3 1"
    by blast
  with f e show ?thesis by (intro conjI)
qed

theorem inverse_law_integer_counterexample:
  "reconstruct uint8_t example_format8 MakeLowBand_int (flat_plane uint8_t 4 4 128)
     (flat_plane uint8_t 4 4 0) (flat_plane uint8_t 4 4 0) 1 = Inr (flat_plane uint8_t 4 4 0)
   \<and> flat_plane uint8_t 4 4 (0::nat) \<noteq> flat_plane uint8_t 4 4 128"
proof -
  have "reconstruct uint8_t example_format8 MakeLowBand_int (flat_plane uint8_t 4 4 128)
     (flat_plane uint8_t 4 4 0) (flat_plane uint8_t 4 4 0) 1 = Inr (flat_plane uint8_t 4 4 0)"
    unfolding reconstruct_def
    by (simp only: scenario_extract MakeLowBand_int_flat sum.case diff_self_eq_0
        scenario_replace_low)
  with flat_plane_neq show ?thesis by (intro conjI)
qed

section \<open>The inverse law on float planes\<close>

lemma example_float_detail_centre:
  "detail_value float_t (packed_plane float_t 5 5 example_float_samples) (Fin 0) 1 2 2
     = Fin (- 55 / 64)"
  by code_simp

lemma example_float_detail_corner:
  "detail_value float_t (packed_plane float_t 5 5 example_float_samples) (Fin 0) 1 0 0
     = Fin (1 / 64)"
  by code_simp

lemma ilog2_minus: "ilog2 (- q) = ilog2 q"
  by (simp add: ilog2_def)

lemma fl_neg:
  assumes "fl r = Fin r"
  shows "fl (- r) = Fin (- r)"
proof (cases "r = 0")
  case True
  then show ?thesis by (simp add: fl_def)
next
  case False
  define E where "E = max (ilog2 r - 23) (- 149)"
  define m where "m = round_even (r / pow2 E)"
  have r: "r = of_int m * pow2 E" "\<bar>r\<bar> < 2 ^ 128"
    using assms False by (auto simp: fl_def Let_def E_def[symmetric] m_def[symmetric] split: if_splits)
  have "r / pow2 E = of_int m" using r(1) less_imp_neq[OF pow2_pos, of E] by simp
  then have "- (r / pow2 E) = of_int (- m)" by simp
  then have re: "round_even (- (r / pow2 E)) = - m" by (simp only: round_even_of_int)
  have m0: "m \<noteq> 0" using r(1) False by auto
  have v: "of_int (- m) * pow2 E = - r" using r(1) by simp
  have "fl (- r) = (let e = E; r' = of_int (round_even (- r / pow2 e)) * pow2 e
      in if \<bar>r'\<bar> < 2 ^ 128 then (if r' = 0 \<and> - r < 0 then NegZero else Fin r') else NonFinite)"
    using False by (simp add: fl_def ilog2_minus E_def[symmetric])
  also have "\<dots> = Fin (- r)"
    unfolding Let_def minus_divide_left[symmetric] re v using r(2) False by simp
  finally show ?thesis .
qed

lemma detail_of_negzero:
  "(\<exists>r. fadd (fsub NegZero b) (Fin 0) = Fin r \<and> fl r = Fin r)
   \<or> fadd (fsub NegZero b) (Fin 0) = NonFinite"
proof (cases b)
  case (Fin y)
  show ?thesis
  proof (cases "y = 0")
    case True
    then show ?thesis using Fin by (simp add: fsub_def fadd_def fl_def)
  next
    case False
    show ?thesis
    proof (cases "fl (- y)")
      case (Fin r)
      from fl_idem[OF this] Fin \<open>b = Fin y\<close> False show ?thesis
        by (simp add: fsub_def fadd_def)
    next
      case NegZero
      then show ?thesis using \<open>b = Fin y\<close> False by (simp add: fsub_def fadd_def fl_def)
    next
      case NonFinite
      then show ?thesis using \<open>b = Fin y\<close> False by (simp add: fsub_def fadd_def)
    qed
  qed
next
  case NegZero
  then show ?thesis by (simp add: fsub_def fadd_def fl_def)
next
  case NonFinite
  then show ?thesis by (simp add: fsub_def fadd_def)
qed

lemma negative_zero_lost:
  assumes "d = fadd (fsub NegZero b) (Fin 0)"
  shows "fadd (fsub NegZero d) d \<noteq> NegZero"
proof -
  from detail_of_negzero[of b] assms
  consider r where "d = Fin r" "fl r = Fin r" | "d = NonFinite" by auto
  then show ?thesis
  proof cases
    case 1
    show ?thesis
    proof (cases "r = 0")
      case True
      then show ?thesis using 1 by (simp add: fsub_def fadd_def fl_def)
    next
      case False
      then show ?thesis using 1 fl_neg[OF 1(2)] by (simp add: fsub_def fadd_def fl_def)
    qed
  next
    case 2
    then show ?thesis by (simp add: fsub_def fadd_def)
  qed
qed

lemma exact_difference_restores:
  assumes "exact_difference s d"
  shows "fadd (fsub s d) d = s"
proof -
  from assms obtain sv dv where v: "s = Fin sv" "d = Fin dv" "fl sv = Fin sv"
      "fl (sv - dv) = Fin (sv - dv)"
    by (auto simp: exact_difference_def split: f32.splits)
  have "fsub s d = Fin (sv - dv)" using v by (simp add: fsub_def)
  then have "fadd (fsub s d) d = fl (sv - dv + dv)" using v(2) by (simp add: fadd_def)
  also have "\<dots> = Fin sv" using v(3) by simp
  finally show ?thesis using v(1) by simp
qed

lemma reconstruct_float:
  assumes p: "plane_ok float_t S"
    and d1: "same_layout dst1 S" and d2: "same_layout dst2 S" and t: "taps_in_bounds S radius"
  shows "\<exists>D R. process_extract_plane float_t S dst1 radius fi = Inr D
         \<and> reconstruct float_t fi MakeLowBand_float S dst1 dst2 radius = Inr R
         \<and> same_layout R dst2
         \<and> (\<forall>x y. in_plane S x y \<longrightarrow>
               pixel_at float_t D x y
                 = detail_value float_t S (Fin 0) (dilation_step radius) x y
               \<and> pixel_at float_t R x y
                   = fadd (fsub (pixel_at float_t S x y) (pixel_at float_t D x y))
                       (pixel_at float_t D x y))"
proof -
  have p1: "plane_ok float_t dst1" and p2: "plane_ok float_t dst2"
    using plane_ok_layout[OF p] d1 d2 by blast+
  have ss1: "same_size S dst1" using d1 by (simp add: same_layout_def same_size_def)
  from extract_float_plane[OF p p1 ss1 t, of fi]
  obtain D where D: "process_extract_plane float_t S dst1 radius fi = Inr D" "same_layout D dst1"
    "\<forall>x y. in_plane S x y \<longrightarrow>
       pixel_at float_t D x y = detail_value float_t S (Fin 0) (dilation_step radius) x y"
    by blast
  have DS: "same_layout D S" using same_layout_trans[OF D(2) d1] .
  define L where "L = MakeLowBand_float S D"
  have LS: "same_layout L S" unfolding L_def MakeLowBand_float_def by (rule map2_plane(1)[OF p DS])
  have Lp: "pixel_at float_t L x y = fsub (pixel_at float_t S x y) (pixel_at float_t D x y)"
    if "in_plane S x y" for x y
    unfolding L_def MakeLowBand_float_def by (rule map2_plane(2)[OF p DS that])
  from replace_float_plane[OF p2 same_layout_trans[OF LS same_layout_sym[OF d2]]
      same_layout_trans[OF DS same_layout_sym[OF d2]], of fi]
  obtain R where R: "ProcessReplacePlane float_t L D dst2 fi = Inr R" "same_layout R dst2"
    "\<forall>x y. in_plane dst2 x y \<longrightarrow>
       pixel_at float_t R x y = fadd (pixel_at float_t L x y) (pixel_at float_t D x y)"
    by blast
  have "pixel_at float_t D x y = detail_value float_t S (Fin 0) (dilation_step radius) x y
      \<and> pixel_at float_t R x y
          = fadd (fsub (pixel_at float_t S x y) (pixel_at float_t D x y)) (pixel_at float_t D x y)"
    if ip: "in_plane S x y" for x y
  proof -
    have "in_plane dst2 x y" using ip in_plane_layout[OF d2] by simp
    then have "pixel_at float_t R x y = fadd (pixel_at float_t L x y) (pixel_at float_t D x y)"
      using R(3) by simp
    then show ?thesis using Lp[OF ip] D(3) ip by simp
  qed
  moreover have "reconstruct float_t fi MakeLowBand_float S dst1 dst2 radius = Inr R"
    using D(1) R(1) by (simp add: reconstruct_def L_def)
  ultimately show ?thesis using D(1) R(2) by blast
qed

lemma example_float_plane:
  "plane_ok float_t (packed_plane float_t 5 5 example_float_samples)"
  "same_layout (flat_plane float_t 5 5 (Fin 0)) (packed_plane float_t 5 5 example_float_samples)"
  "taps_in_bounds (packed_plane float_t 5 5 example_float_samples) 1"
  "in_plane (packed_plane float_t 5 5 example_float_samples) 0 0"
  "in_plane (packed_plane float_t 5 5 example_float_samples) 2 2"
  "pixel_at float_t (packed_plane float_t 5 5 example_float_samples) 0 0 = Fin 1"
  "pixel_at float_t (packed_plane float_t 5 5 example_float_samples) 2 2 = Fin (1 / 67108864)"
proof -
  show "plane_ok float_t (packed_plane float_t 5 5 example_float_samples)"
    by (rule packed_plane_ok) (simp_all add: example_float_samples_def)
  show "same_layout (flat_plane float_t 5 5 (Fin 0))
      (packed_plane float_t 5 5 example_float_samples)"
    by (simp add: same_layout_def same_size_def flat_plane_def packed_plane_def
        example_float_samples_def)
  show "taps_in_bounds (packed_plane float_t 5 5 example_float_samples) 1"
    by (simp add: taps_in_bounds_def dilation_step_def)
  show "in_plane (packed_plane float_t 5 5 example_float_samples) 0 0"
    "in_plane (packed_plane float_t 5 5 example_float_samples) 2 2"
    by (simp_all add: in_plane_def)
  have "example_float_samples ! 0 = Fin 1"
    by code_simp
  then show "pixel_at float_t (packed_plane float_t 5 5 example_float_samples) 0 0 = Fin 1"
    by (simp add: packed_pixel_at)
  have "example_float_samples ! 12 = Fin (1 / 67108864)"
    by code_simp
  then show "pixel_at float_t (packed_plane float_t 5 5 example_float_samples) 2 2
      = Fin (1 / 67108864)"
    by (simp add: packed_pixel_at)
qed

lemma example_float_arith:
  "exact_difference (Fin 1) (Fin (1 / 64))"
  "fadd (fsub (Fin (1 / 67108864)) (Fin (- 55 / 64))) (Fin (- 55 / 64)) = Fin 0"
  by code_simp+

lemma dilation_step_1: "dilation_step 1 = 1"
  by (simp add: dilation_step_def)

text \<open>
  \<^bold>\<open>C1\<close> (as amended). For every float plane \<open>S\<close> of at most \<open>2^31 - 1\<close> samples and every
  radius whose taps stay in bounds, \<open>Replace(MakeLowBand(S), Extract(S, radius))\<close> with
  \<open>MakeLowBand(S) = S - Extract(S, radius)\<close> returns at every pixel the single-precision
  value \<open>(s - d) + d\<close>, both operations rounded, where \<open>s\<close> is the sample of \<open>S\<close> and \<open>d\<close>
  the sample of the extracted detail. It is the sample \<open>s\<close> again, bit for bit, at every
  pixel where \<open>s\<close> and \<open>d\<close> are finite, \<open>s\<close> is not the negative zero and the difference
  \<open>s - d\<close> is a single-precision number, that is where the subtraction of the low band does
  not round (\<open>exact_difference\<close>). A sample \<open>-0.0\<close> never comes back: the detail is formed
  by adding the neutral value \<open>+0.0\<close>, which turns \<open>-0.0\<close> into \<open>+0.0\<close>.
\<close>

theorem inverse_law_float:
  "plane_ok float_t S \<and> same_layout dst1 S \<and> same_layout dst2 S \<and> taps_in_bounds S radius \<longrightarrow>
   (\<exists>D R. process_extract_plane float_t S dst1 radius fi = Inr D
      \<and> reconstruct float_t fi MakeLowBand_float S dst1 dst2 radius = Inr R
      \<and> same_layout R dst2
      \<and> (\<forall>x y. in_plane S x y \<longrightarrow>
            pixel_at float_t R x y
              = fadd (fsub (pixel_at float_t S x y) (pixel_at float_t D x y))
                  (pixel_at float_t D x y)
            \<and> (exact_difference (pixel_at float_t S x y) (pixel_at float_t D x y) \<longrightarrow>
                 pixel_at float_t R x y = pixel_at float_t S x y)
            \<and> (pixel_at float_t S x y = NegZero \<longrightarrow> pixel_at float_t R x y \<noteq> NegZero)))"
proof (intro impI, elim conjE)
  assume a: "plane_ok float_t S" "same_layout dst1 S" "same_layout dst2 S"
    "taps_in_bounds S radius"
  from reconstruct_float[OF a, of fi]
  obtain D R where r: "process_extract_plane float_t S dst1 radius fi = Inr D"
    "reconstruct float_t fi MakeLowBand_float S dst1 dst2 radius = Inr R"
    "same_layout R dst2"
    "\<forall>x y. in_plane S x y \<longrightarrow>
       pixel_at float_t D x y = detail_value float_t S (Fin 0) (dilation_step radius) x y
       \<and> pixel_at float_t R x y
           = fadd (fsub (pixel_at float_t S x y) (pixel_at float_t D x y))
               (pixel_at float_t D x y)"
    by blast
  have "pixel_at float_t R x y
          = fadd (fsub (pixel_at float_t S x y) (pixel_at float_t D x y)) (pixel_at float_t D x y)
      \<and> (exact_difference (pixel_at float_t S x y) (pixel_at float_t D x y) \<longrightarrow>
           pixel_at float_t R x y = pixel_at float_t S x y)
      \<and> (pixel_at float_t S x y = NegZero \<longrightarrow> pixel_at float_t R x y \<noteq> NegZero)"
    if ip: "in_plane S x y" for x y
  proof (intro conjI impI)
    show e: "pixel_at float_t R x y
        = fadd (fsub (pixel_at float_t S x y) (pixel_at float_t D x y)) (pixel_at float_t D x y)"
      using r(4) ip by blast
    {
      assume "exact_difference (pixel_at float_t S x y) (pixel_at float_t D x y)"
      from exact_difference_restores[OF this] e
      show "pixel_at float_t R x y = pixel_at float_t S x y" by simp
    }
    assume z: "pixel_at float_t S x y = NegZero"
    have "pixel_at float_t D x y
        = fadd (fsub NegZero (fdiv (vertical_pass float_t S (dilation_step radius) x y) (Fin 256)))
            (Fin 0)"
      using r(4) ip z by (simp add: detail_value_def)
    from negative_zero_lost[OF this] e z
    show "pixel_at float_t R x y \<noteq> NegZero" by simp
  qed
  with r(1-3)
  show "\<exists>D R. process_extract_plane float_t S dst1 radius fi = Inr D
      \<and> reconstruct float_t fi MakeLowBand_float S dst1 dst2 radius = Inr R
      \<and> same_layout R dst2
      \<and> (\<forall>x y. in_plane S x y \<longrightarrow>
            pixel_at float_t R x y
              = fadd (fsub (pixel_at float_t S x y) (pixel_at float_t D x y))
                  (pixel_at float_t D x y)
            \<and> (exact_difference (pixel_at float_t S x y) (pixel_at float_t D x y) \<longrightarrow>
                 pixel_at float_t R x y = pixel_at float_t S x y)
            \<and> (pixel_at float_t S x y = NegZero \<longrightarrow> pixel_at float_t R x y \<noteq> NegZero))"
    by blast
qed

theorem inverse_law_float_witness:
  "(plane_ok float_t (packed_plane float_t 5 5 example_float_samples)
     \<and> same_layout (flat_plane float_t 5 5 (Fin 0))
         (packed_plane float_t 5 5 example_float_samples)
     \<and> taps_in_bounds (packed_plane float_t 5 5 example_float_samples) 1
     \<and> in_plane (packed_plane float_t 5 5 example_float_samples) 0 0)
   \<and> (\<exists>D R. process_extract_plane float_t (packed_plane float_t 5 5 example_float_samples)
               (flat_plane float_t 5 5 (Fin 0)) 1 example_formatS = Inr D
        \<and> reconstruct float_t example_formatS MakeLowBand_float
            (packed_plane float_t 5 5 example_float_samples)
            (flat_plane float_t 5 5 (Fin 0)) (flat_plane float_t 5 5 (Fin 0)) 1 = Inr R
        \<and> exact_difference (pixel_at float_t (packed_plane float_t 5 5 example_float_samples) 0 0)
            (pixel_at float_t D 0 0)
        \<and> pixel_at float_t R 0 0
            = pixel_at float_t (packed_plane float_t 5 5 example_float_samples) 0 0)
   \<and> (plane_ok float_t (flat_plane float_t 5 5 NegZero)
        \<and> same_layout (flat_plane float_t 5 5 (Fin 0)) (flat_plane float_t 5 5 NegZero)
        \<and> taps_in_bounds (flat_plane float_t 5 5 NegZero) 1
        \<and> in_plane (flat_plane float_t 5 5 NegZero) 0 0
        \<and> pixel_at float_t (flat_plane float_t 5 5 NegZero) 0 0 = NegZero)
   \<and> (\<exists>R. reconstruct float_t example_formatS MakeLowBand_float
            (flat_plane float_t 5 5 NegZero)
            (flat_plane float_t 5 5 (Fin 0)) (flat_plane float_t 5 5 (Fin 0)) 1 = Inr R
        \<and> pixel_at float_t R 0 0 \<noteq> NegZero)"
proof -
  define S where "S = packed_plane float_t 5 5 example_float_samples"
  define Z where "Z = flat_plane float_t 5 5 (Fin (0::rat))"
  note e = example_float_plane[folded S_def Z_def]
  have ss: "same_size S Z" using e(2) by (simp add: same_layout_def same_size_def)
  from extract_float_plane[OF e(1) plane_ok_layout[OF e(1) e(2)] ss e(3), of example_formatS]
  obtain D0 where D0: "process_extract_plane float_t S Z 1 example_formatS = Inr D0"
    "\<forall>x y. in_plane S x y \<longrightarrow>
       pixel_at float_t D0 x y = detail_value float_t S (Fin 0) (dilation_step 1) x y"
    by blast
  have d0: "pixel_at float_t D0 0 0 = Fin (1 / 64)"
    using D0(2)[rule_format, OF e(4)] example_float_detail_corner
    by (simp add: S_def dilation_step_1)
  from inverse_law_float[of S Z Z 1 example_formatS, rule_format] e(1) e(2) e(3)
  obtain D R where r: "process_extract_plane float_t S Z 1 example_formatS = Inr D"
    "reconstruct float_t example_formatS MakeLowBand_float S Z Z 1 = Inr R"
    "\<forall>x y. in_plane S x y \<longrightarrow>
       pixel_at float_t R x y
         = fadd (fsub (pixel_at float_t S x y) (pixel_at float_t D x y)) (pixel_at float_t D x y)
       \<and> (exact_difference (pixel_at float_t S x y) (pixel_at float_t D x y) \<longrightarrow>
            pixel_at float_t R x y = pixel_at float_t S x y)
       \<and> (pixel_at float_t S x y = NegZero \<longrightarrow> pixel_at float_t R x y \<noteq> NegZero)"
    by blast
  have DD: "D = D0" using r(1) D0(1) by simp
  have ex: "exact_difference (pixel_at float_t S 0 0) (pixel_at float_t D 0 0)"
    unfolding DD d0 e(6) by (rule example_float_arith(1))
  from r(3)[rule_format, OF e(4), THEN conjunct2, THEN conjunct1, rule_format, OF ex]
  have "pixel_at float_t R 0 0 = pixel_at float_t S 0 0" .
  with r(1,2) ex
  have c1: "\<exists>D R. process_extract_plane float_t S Z 1 example_formatS = Inr D
        \<and> reconstruct float_t example_formatS MakeLowBand_float S Z Z 1 = Inr R
        \<and> exact_difference (pixel_at float_t S 0 0) (pixel_at float_t D 0 0)
        \<and> pixel_at float_t R 0 0 = pixel_at float_t S 0 0"
    by blast
  define N where "N = flat_plane float_t 5 5 NegZero"
  have n: "plane_ok float_t N" "same_layout Z N" "taps_in_bounds N 1" "in_plane N 0 0"
    "pixel_at float_t N 0 0 = NegZero"
  proof -
    show "plane_ok float_t N" unfolding N_def by (rule flat_plane_ok) simp_all
    show "same_layout Z N" unfolding N_def Z_def by (rule flat_plane_layout)
    show "taps_in_bounds N 1" by (simp add: N_def taps_in_bounds_def dilation_step_def)
    show ip: "in_plane N 0 0" by (simp add: N_def in_plane_def)
    show "pixel_at float_t N 0 0 = NegZero"
      using ip unfolding N_def by (intro flat_plane_pixel) simp_all
  qed
  from inverse_law_float[of N Z Z 1 example_formatS, rule_format] n(1) n(2) n(3)
  obtain D' R' where r': "reconstruct float_t example_formatS MakeLowBand_float N Z Z 1 = Inr R'"
    "\<forall>x y. in_plane N x y \<longrightarrow>
       pixel_at float_t R' x y
         = fadd (fsub (pixel_at float_t N x y) (pixel_at float_t D' x y))
             (pixel_at float_t D' x y)
       \<and> (exact_difference (pixel_at float_t N x y) (pixel_at float_t D' x y) \<longrightarrow>
            pixel_at float_t R' x y = pixel_at float_t N x y)
       \<and> (pixel_at float_t N x y = NegZero \<longrightarrow> pixel_at float_t R' x y \<noteq> NegZero)"
    by blast
  from r'(2)[rule_format, OF n(4), THEN conjunct2, THEN conjunct2, rule_format, OF n(5)] r'(1)
  have c2: "\<exists>R. reconstruct float_t example_formatS MakeLowBand_float N Z Z 1 = Inr R
        \<and> pixel_at float_t R 0 0 \<noteq> NegZero"
    by blast
  from e(1-4) c1 n c2 show ?thesis unfolding S_def Z_def N_def by (intro conjI)
qed

theorem inverse_law_float_counterexample:
  "\<exists>R. reconstruct float_t example_formatS MakeLowBand_float
          (packed_plane float_t 5 5 example_float_samples)
          (flat_plane float_t 5 5 (Fin 0)) (flat_plane float_t 5 5 (Fin 0)) 1 = Inr R
     \<and> pixel_at float_t R 2 2 = Fin 0
     \<and> pixel_at float_t (packed_plane float_t 5 5 example_float_samples) 2 2
         = Fin (1 / 67108864)"
proof -
  define S where "S = packed_plane float_t 5 5 example_float_samples"
  define Z where "Z = flat_plane float_t 5 5 (Fin (0::rat))"
  note e = example_float_plane[folded S_def Z_def]
  from reconstruct_float[OF e(1) e(2) e(2) e(3), of example_formatS]
  obtain D R where r: "reconstruct float_t example_formatS MakeLowBand_float S Z Z 1 = Inr R"
    "\<forall>x y. in_plane S x y \<longrightarrow>
       pixel_at float_t D x y = detail_value float_t S (Fin 0) (dilation_step 1) x y
       \<and> pixel_at float_t R x y
           = fadd (fsub (pixel_at float_t S x y) (pixel_at float_t D x y))
               (pixel_at float_t D x y)"
    by blast
  note px = r(2)[rule_format, OF e(5)]
  have d: "pixel_at float_t D 2 2 = Fin (- 55 / 64)"
    using px[THEN conjunct1] example_float_detail_centre by (simp add: S_def dilation_step_1)
  have "pixel_at float_t R 2 2 = Fin 0"
    using px[THEN conjunct2] unfolding d e(7) by (simp only: example_float_arith(2))
  with r(1) e(7) show ?thesis unfolding S_def Z_def by blast
qed

end
